theory Spec2Isabelle
  imports Main "HOL-Library.Multiset"
begin

section \<open>Data model of \<open>src/src/ashare_crawler.py\<close>\<close>

text \<open>
  The two bound functions a task can carry are \<open>AShareCrawler.get_list\<close> and
  \<open>AShareCrawler.get_stock\<close>; the worker tells them apart by \<open>task.func.__name__\<close>.
  Task arguments are Python values: page numbers are ints, stock identifiers are strings.
\<close>

datatype func_name = get_list | get_stock

datatype arg = IntArg int | StrArg string

text \<open>
  Modelled from the spec: \<open>each_task\<close> is imported from \<open>src.utils\<close>, which is not among the
  source files. The worker builds it as \<open>each_task(func, args, tries)\<close>, reads \<open>task.func\<close>
  and \<open>task.args\<close> and writes \<open>task.tries += 1\<close>; the spec describes it as the unit of work
  with a bound function, an argument sequence and a retry counter that starts at 0.
\<close>

record task =
  func :: func_name
  args :: "arg list"
  tries :: int

definition each_task :: "func_name \<Rightarrow> arg list \<Rightarrow> int \<Rightarrow> task" where
  "each_task f a n = \<lparr>func = f, args = a, tries = n\<rparr>"

text \<open>An element of the crawler queue is the Python list \<open>[prior, task]\<close>.\<close>

type_synonym entry = "int \<times> task"

text \<open>
  What a bound function can hand back: \<open>get_list\<close> returns a list of stock codes,
  \<open>get_stock\<close> a data frame (kept as its rows; \<open>DataFrame.empty\<close> is "no rows"); both
  return \<open>None\<close> when the request failed, and both can raise.
\<close>

datatype pyvalue = Listing "string list" | Frame "string list list"

datatype outcome = Raised | Returned "pyvalue option"

text \<open>\<open>write(result, save_fp)\<close> of the absent \<open>src.utils\<close>: it answers true or false, or raises.\<close>

datatype write_outcome = Wrote bool | WriteRaised

datatype exn = FuncRaised | IndexError | TypeError | ValueError | AttributeError | WriteError

datatype level = INFO | WARNING | ERROR

datatype message =
    PoolStarts int
  | CrawlerStarts nat
  | CrawlerStopped nat
  | WriterStarts nat
  | WriterStopped nat
  | StopRetrying func_name "arg list" int
  | ContinueRetrying func_name "arg list" int
  | ExceptionInfo exn
  | TaskFailed func_name "arg list"
  | Retrieved int int

text \<open>
  Every access to shared state appends one action to the trace, in program order:
  logging calls, the lock around the progress bar, the bar's updates, the call of the bound
  function and the queue operations.
\<close>

datatype action =
    Log level message
  | Acquire
  | Release
  | Refresh
  | TotalAdd int
  | TotalSub int
  | Update int
  | Call func_name "arg list"
  | PutCrawler int task
  | PutWriter pyvalue string
  | WriteCall pyvalue string write_outcome
  | PutOther nat
  | GetOther
  | Close

text \<open>
  The object state of \<open>AShareCrawler\<close>: \<open>self.queues\<close> (crawler, writer, other),
  \<open>self.pbar\<close> (\<open>total\<close> and \<open>n\<close>) and \<open>self.save_fp\<close>. \<open>req_info\<close> and \<open>dates\<close> are
  used only inside the two bound functions.
\<close>

record crawler_state =
  crawler :: "entry list"
  writer :: "(pyvalue \<times> string) list"
  other :: "nat list"
  pbar_total :: int
  pbar_n :: int
  save_fp :: string
  trace :: "action list"

text \<open>
  Two things the worker relies on are defined outside the repository's sources: how Python
  orders two unequal task objects (it decides \<open>[p, t1] < [p, t2]\<close> inside the priority
  queue) and the string operator \<open>%\<close>. Both are parameters; \<open>percent\<close> answers \<open>None\<close>
  where the operator raises.
\<close>

record py_env =
  task_lt :: "task \<Rightarrow> task \<Rightarrow> bool"
  percent :: "string \<Rightarrow> string \<Rightarrow> string option"

section \<open>\<open>queue.PriorityQueue\<close>: a binary heap in a list\<close>

text \<open>
  \<open>PriorityQueue._put\<close> is \<open>heappush\<close> and \<open>PriorityQueue._get\<close> is \<open>heappop\<close> on a Python
  list. Two entries are compared as Python lists: by priority first and, when the
  priorities are equal and the tasks differ, by the tasks.
\<close>

definition entry_lt :: "(task \<Rightarrow> task \<Rightarrow> bool) \<Rightarrow> entry \<Rightarrow> entry \<Rightarrow> bool" where
  "entry_lt lt a b =
     (if fst a \<noteq> fst b then fst a < fst b
      else if snd a \<noteq> snd b then lt (snd a) (snd b)
      else False)"

function siftdown ::
  "(task \<Rightarrow> task \<Rightarrow> bool) \<Rightarrow> entry list \<Rightarrow> nat \<Rightarrow> nat \<Rightarrow> entry \<Rightarrow> entry list" where
  "siftdown lt heap startpos pos newitem =
     (if pos > startpos then
        (let parentpos = (pos - 1) div 2; parent = heap ! parentpos in
         if entry_lt lt newitem parent
         then siftdown lt (heap[pos := parent]) startpos parentpos newitem
         else heap[pos := newitem])
      else heap[pos := newitem])"
  by pat_completeness auto
termination
  by (relation "measure (\<lambda>(lt, heap, startpos, pos, newitem). pos)") auto

definition heappush :: "(task \<Rightarrow> task \<Rightarrow> bool) \<Rightarrow> entry list \<Rightarrow> entry \<Rightarrow> entry list" where
  "heappush lt heap item = siftdown lt (heap @ [item]) 0 (length heap) item"

text \<open>The loop of \<open>_siftup\<close> that moves the smaller child up until the hole is a leaf.\<close>

function bubble :: "(task \<Rightarrow> task \<Rightarrow> bool) \<Rightarrow> entry list \<Rightarrow> nat \<Rightarrow> entry list \<times> nat" where
  "bubble lt heap pos =
     (let childpos = 2 * pos + 1 in
      if childpos < length heap then
        (let rightpos = childpos + 1;
             c = (if rightpos < length heap \<and> \<not> entry_lt lt (heap ! childpos) (heap ! rightpos)
                  then rightpos else childpos)
         in bubble lt (heap[pos := heap ! c]) c)
      else (heap, pos))"
  by pat_completeness auto
termination
  by (relation "measure (\<lambda>(lt, heap, pos). length heap - pos)") (auto simp: Let_def)

definition siftup :: "(task \<Rightarrow> task \<Rightarrow> bool) \<Rightarrow> entry list \<Rightarrow> nat \<Rightarrow> entry list" where
  "siftup lt heap pos =
     (let newitem = heap ! pos; (heap', leaf) = bubble lt heap pos
      in siftdown lt (heap'[leaf := newitem]) pos leaf newitem)"

text \<open>\<open>None\<close> is the empty queue: \<open>Queue.get(timeout=...)\<close> then raises \<open>Empty\<close>.\<close>

definition heappop :: "(task \<Rightarrow> task \<Rightarrow> bool) \<Rightarrow> entry list \<Rightarrow> (entry \<times> entry list) option" where
  "heappop lt heap =
     (if heap = [] then None
      else (let lastelt = last heap; rest = butlast heap in
            if rest \<noteq> [] then Some (hd rest, siftup lt (rest[0 := lastelt]) 0)
            else Some (lastelt, [])))"

section \<open>The crawler worker: one iteration of the loop of \<open>do_task\<close>\<close>

definition emit :: "action list \<Rightarrow> crawler_state \<Rightarrow> crawler_state" where
  "emit acts s = s\<lparr>trace := trace s @ acts\<rparr>"

definition log :: "level \<Rightarrow> message \<Rightarrow> crawler_state \<Rightarrow> crawler_state" where
  "log lvl msg s = emit [Log lvl msg] s"

definition put_crawler :: "py_env \<Rightarrow> int \<Rightarrow> task \<Rightarrow> crawler_state \<Rightarrow> crawler_state" where
  "put_crawler env prior t s =
     emit [PutCrawler prior t] (s\<lparr>crawler := heappush (task_lt env) (crawler s) (prior, t)\<rparr>)"

definition put_writer :: "pyvalue \<Rightarrow> string \<Rightarrow> crawler_state \<Rightarrow> crawler_state" where
  "put_writer v path s = emit [PutWriter v path] (s\<lparr>writer := writer s @ [(v, path)]\<rparr>)"

text \<open>
  The handler of \<open>except Exception\<close> (lines 113 to 116): \<open>logging.exception\<close> writes at
  error severity, then the function name and the arguments are logged.
\<close>

definition on_exception :: "exn \<Rightarrow> task \<Rightarrow> crawler_state \<Rightarrow> crawler_state" where
  "on_exception e t s = log ERROR (TaskFailed (func t) (args t)) (log ERROR (ExceptionInfo e) s)"

datatype flow = Break | Continue

text \<open>Lines 94 to 104: the bar's total grows under \<open>PBAR_LOCK\<close>, then the puts.\<close>

definition add_total :: "int \<Rightarrow> crawler_state \<Rightarrow> crawler_state" where
  "add_total k s = emit [Acquire, TotalAdd k, Refresh, Release] (s\<lparr>pbar_total := pbar_total s + k\<rparr>)"

definition put_stocks :: "py_env \<Rightarrow> string list \<Rightarrow> crawler_state \<Rightarrow> crawler_state" where
  "put_stocks env ids s = fold (\<lambda>stk_id. put_crawler env 0 (each_task get_stock [StrArg stk_id] 0)) ids s"

definition expand_list :: "py_env \<Rightarrow> task \<Rightarrow> string list \<Rightarrow> crawler_state \<Rightarrow> crawler_state" where
  "expand_list env t ids s =
     (let s1 = put_stocks env ids (add_total (int (length ids)) s) in
      case args t of
        [] \<Rightarrow> on_exception IndexError t s1
      | IntArg page # _ \<Rightarrow> put_crawler env 1 (each_task get_list [IntArg (page + 1)] 0) s1
      | StrArg _ # _ \<Rightarrow> on_exception TypeError t s1)"

text \<open>Lines 107 and 108: \<open>self.queues.writer.put((result, self.save_fp % task.args[0][2:]))\<close>.\<close>

definition forward_stock :: "py_env \<Rightarrow> task \<Rightarrow> pyvalue \<Rightarrow> crawler_state \<Rightarrow> crawler_state" where
  "forward_stock env t v s =
     (case args t of
        [] \<Rightarrow> on_exception IndexError t s
      | IntArg _ # _ \<Rightarrow> on_exception TypeError t s
      | StrArg stk_id # _ \<Rightarrow>
          (case percent env (save_fp s) (drop 2 stk_id) of
             None \<Rightarrow> on_exception TypeError t s
           | Some path \<Rightarrow> put_writer v path s))"

text \<open>
  One pass through the body of \<open>while True\<close> (lines 66 to 116). The outcome of
  \<open>task.func(*task.args)\<close> is the argument \<open>out\<close>. The result carries, besides the new
  state, the worker's local variables \<open>prior\<close> and \<open>task\<close> as the pass leaves them.
\<close>

definition do_task_iter ::
  "py_env \<Rightarrow> int \<Rightarrow> crawler_state \<Rightarrow> outcome \<Rightarrow> flow \<times> crawler_state \<times> entry option" where
  "do_task_iter env max_retry s out =
     (case heappop (task_lt env) (crawler s) of
        None \<Rightarrow> (Break, s, None)
      | Some ((prior, t), q) \<Rightarrow>
          (let s1 = emit [Call (func t) (args t)] (s\<lparr>crawler := q\<rparr>) in
           case out of
             Raised \<Rightarrow> (Continue, on_exception FuncRaised t s1, Some (prior, t))
           | Returned result \<Rightarrow>
               (let t = t\<lparr>tries := tries t + 1\<rparr> in
                case result of
                  None \<Rightarrow>
                    if tries t \<ge> max_retry
                    then (Continue, log ERROR (StopRetrying (func t) (args t) max_retry) s1,
                          Some (prior, t))
                    else
                      (let s2 = log WARNING (ContinueRetrying (func t) (args t) (tries t)) s1;
                           prior = prior + 2
                       in (Continue, put_crawler env prior t s2, Some (prior, t)))
                | Some v \<Rightarrow>
                    if func t = get_list then
                      (case v of
                         Frame _ \<Rightarrow> (Continue, on_exception ValueError t s1, Some (prior, t))
                       | Listing ids \<Rightarrow>
                           if ids = [] then (Continue, s1, Some (prior, t))
                           else (Continue, expand_list env t ids s1, Some (prior, t)))
                    else (Continue, forward_stock env t v s1, Some (prior, t)))))"

text \<open>
  Lines 61 to 64 and 118 to 120: the worker registers its thread id on \<open>queues.other\<close>
  before the loop and takes one id off after it. \<open>Queue.get()\<close> without a timeout waits for
  ever on an empty queue, which is the value \<open>None\<close>.
\<close>

definition do_task_enter :: "nat \<Rightarrow> crawler_state \<Rightarrow> crawler_state" where
  "do_task_enter thread_id s =
     log INFO (CrawlerStarts thread_id) (emit [PutOther thread_id] (s\<lparr>other := other s @ [thread_id]\<rparr>))"

definition do_task_exit :: "nat \<Rightarrow> crawler_state \<Rightarrow> crawler_state option" where
  "do_task_exit thread_id s =
     (case other s of
        [] \<Rightarrow> None
      | _ # rest \<Rightarrow> Some (log INFO (CrawlerStopped thread_id) (emit [GetOther] (s\<lparr>other := rest\<rparr>))))"

text \<open>
  The loop run by one worker alone. The outcomes of the successive calls are read from a
  list; the loop ends when the queue is empty (\<open>Empty\<close> after the timeout) and gives back
  the outcomes it did not use. \<open>None\<close> means the list ran out while tasks were left.
\<close>

fun do_task_loop ::
  "py_env \<Rightarrow> int \<Rightarrow> crawler_state \<Rightarrow> outcome list \<Rightarrow> (crawler_state \<times> outcome list) option" where
  "do_task_loop env max_retry s [] = (if crawler s = [] then Some (s, []) else None)"
| "do_task_loop env max_retry s (out # outs) =
     (case do_task_iter env max_retry s out of
        (Break, s', _) \<Rightarrow> Some (s', out # outs)
      | (Continue, s', _) \<Rightarrow> do_task_loop env max_retry s' outs)"

section \<open>The writer worker: one iteration of the loop of \<open>write_result\<close>\<close>

definition write_result_iter :: "crawler_state \<Rightarrow> write_outcome \<Rightarrow> flow \<times> crawler_state" where
  "write_result_iter s w =
     (case writer s of
        [] \<Rightarrow> if other s = [] then (Break, s) else (Continue, s)
      | (result, fp) # rest \<Rightarrow>
          (let s1 = s\<lparr>writer := rest\<rparr> in
           case result of
             Listing _ \<Rightarrow> (Continue, log ERROR (ExceptionInfo AttributeError) s1)
           | Frame rows \<Rightarrow>
               if rows = [] then
                 (Continue, emit [Acquire, TotalSub 1, Refresh, Release]
                              (s1\<lparr>pbar_total := pbar_total s1 - 1\<rparr>))
               else
                 (let s2 = emit [WriteCall result fp w] s1 in
                  case w of
                    WriteRaised \<Rightarrow> (Continue, log ERROR (ExceptionInfo WriteError) s2)
                  | Wrote ok \<Rightarrow>
                      if ok then (Continue, emit [Acquire, Update 1, Release]
                                              (s2\<lparr>pbar_n := pbar_n s2 + 1\<rparr>))
                      else (Continue, s2))))"

section \<open>Auxiliary definitions\<close>

text \<open>
  \<open>AShareCrawler.__init__\<close>: three empty queues and a progress bar created with
  \<open>total=0\<close> (its \<open>n\<close> starts at 0).
\<close>

definition init :: "string \<Rightarrow> crawler_state" where
  "init fp = \<lparr>crawler = [], writer = [], other = [], pbar_total = 0, pbar_n = 0,
              save_fp = fp, trace = []\<rparr>"

text \<open>The child chosen by one round of the loop of \<open>_siftup\<close>.\<close>

definition smaller_child :: "(task \<Rightarrow> task \<Rightarrow> bool) \<Rightarrow> entry list \<Rightarrow> nat \<Rightarrow> nat" where
  "smaller_child lt heap pos =
     (if 2 * pos + 2 < length heap \<and> \<not> entry_lt lt (heap ! (2 * pos + 1)) (heap ! (2 * pos + 2))
      then 2 * pos + 2 else 2 * pos + 1)"

text \<open>The puts of the list comprehension of lines 98 to 102, as actions and on the heap.\<close>

definition stock_puts :: "string list \<Rightarrow> action list" where
  "stock_puts ids = map (\<lambda>stk_id. PutCrawler 0 (each_task get_stock [StrArg stk_id] 0)) ids"

definition push_stocks :: "(task \<Rightarrow> task \<Rightarrow> bool) \<Rightarrow> string list \<Rightarrow> entry list \<Rightarrow> entry list" where
  "push_stocks lt ids heap =
     fold (\<lambda>stk_id h. heappush lt h (0, each_task get_stock [StrArg stk_id] 0)) ids heap"

text \<open>
  An instance of the two parameters, used to run the model on examples. Tasks are ordered
  field by field, as a tuple \<open>(func, args, tries)\<close> would be; two tasks with different
  functions are never smaller than one another. \<open>percent_s\<close> is \<open>%\<close> for a template with
  exactly one \<open>%s\<close> and no other directive; on any other template it answers \<open>None\<close>.
\<close>

fun str_lt :: "string \<Rightarrow> string \<Rightarrow> bool" where
  "str_lt [] [] = False"
| "str_lt [] (y # ys) = True"
| "str_lt (x # xs) [] = False"
| "str_lt (x # xs) (y # ys) = (if x = y then str_lt xs ys else (of_char x :: nat) < of_char y)"

fun arg_lt :: "arg \<Rightarrow> arg \<Rightarrow> bool" where
  "arg_lt (IntArg a) (IntArg b) = (a < b)"
| "arg_lt (StrArg a) (StrArg b) = str_lt a b"
| "arg_lt _ _ = False"

fun args_lt :: "arg list \<Rightarrow> arg list \<Rightarrow> bool" where
  "args_lt [] [] = False"
| "args_lt [] (y # ys) = True"
| "args_lt (x # xs) [] = False"
| "args_lt (x # xs) (y # ys) = (if x = y then args_lt xs ys else arg_lt x y)"

definition tuple_lt :: "task \<Rightarrow> task \<Rightarrow> bool" where
  "tuple_lt a b =
     (if func a \<noteq> func b then False
      else if args a \<noteq> args b then args_lt (args a) (args b)
      else tries a < tries b)"

fun percent_s :: "string \<Rightarrow> string \<Rightarrow> string option" where
  "percent_s [] a = None"
| "percent_s (c # cs) a =
     (if c = CHR ''%'' then
        (case cs of
           [] \<Rightarrow> None
         | d # rest \<Rightarrow> if d = CHR ''s'' \<and> CHR ''%'' \<notin> set rest then Some (a @ rest) else None)
      else map_option ((#) c) (percent_s cs a))"

definition tuple_env :: py_env where
  "tuple_env = \<lparr>task_lt = tuple_lt, percent = percent_s\<rparr>"

text \<open>The tasks put on the crawler queue by a sequence of actions, in order.\<close>

fun put_tasks :: "action list \<Rightarrow> task list" where
  "put_tasks [] = []"
| "put_tasks (PutCrawler p t # acts) = t # put_tasks acts"
| "put_tasks (_ # acts) = put_tasks acts"

text \<open>A crawler whose queue holds the task for page 0 at priority 1, used in examples.\<close>

definition page0 :: crawler_state where
  "page0 = (init ''%s.csv'')\<lparr>crawler := [(1, each_task get_list [IntArg 0] 0)]\<rparr>"

text \<open>The number of calls of a bound function recorded in a trace.\<close>

fun calls :: "action list \<Rightarrow> nat" where
  "calls [] = 0"
| "calls (Call f a # acts) = Suc (calls acts)"
| "calls (_ # acts) = calls acts"

text \<open>
  The heap condition on priorities: no entry has a smaller priority than its parent, the
  parent of index \<open>i\<close> being \<open>(i - 1) div 2\<close>. \<open>hole_inv\<close> and \<open>sift_inv\<close> are the conditions
  that hold while \<open>_siftup\<close> and \<open>_siftdown\<close> move the hole at \<open>pos\<close>.
\<close>

definition heap_ok :: "entry list \<Rightarrow> bool" where
  "heap_ok heap = list_all (\<lambda>i. fst (heap ! ((i - 1) div 2)) \<le> fst (heap ! i)) [1..<length heap]"

definition hole_inv :: "entry list \<Rightarrow> nat \<Rightarrow> bool" where
  "hole_inv h pos \<longleftrightarrow>
     pos < length h
     \<and> (\<forall>i. 0 < i \<and> i < length h \<and> i \<noteq> pos \<and> (i - 1) div 2 \<noteq> pos
            \<longrightarrow> fst (h ! ((i - 1) div 2)) \<le> fst (h ! i))
     \<and> (\<forall>c. 0 < c \<and> c < length h \<and> (c - 1) div 2 = pos \<and> 0 < pos
            \<longrightarrow> fst (h ! ((pos - 1) div 2)) \<le> fst (h ! c))"

definition sift_inv :: "entry list \<Rightarrow> nat \<Rightarrow> entry \<Rightarrow> bool" where
  "sift_inv h pos x \<longleftrightarrow>
     hole_inv h pos \<and> (\<forall>c. 0 < c \<and> c < length h \<and> (c - 1) div 2 = pos \<longrightarrow> fst x \<le> fst (h ! c))"

text \<open>A run of puts, and the entries that successive gets return until the queue is empty.\<close>

definition push_all :: "(task \<Rightarrow> task \<Rightarrow> bool) \<Rightarrow> entry list \<Rightarrow> entry list \<Rightarrow> entry list" where
  "push_all lt es heap = fold (\<lambda>e h. heappush lt h e) es heap"

primrec pop_n :: "(task \<Rightarrow> task \<Rightarrow> bool) \<Rightarrow> nat \<Rightarrow> entry list \<Rightarrow> entry list" where
  "pop_n lt 0 heap = []"
| "pop_n lt (Suc n) heap =
     (case heappop lt heap of None \<Rightarrow> [] | Some (x, heap') \<Rightarrow> x # pop_n lt n heap')"

definition pop_all :: "(task \<Rightarrow> task \<Rightarrow> bool) \<Rightarrow> entry list \<Rightarrow> entry list" where
  "pop_all lt heap = pop_n lt (length heap) heap"

section \<open>The whole program: \<open>assign_tasks\<close> and its worker threads\<close>

text \<open>
  \<open>assign_tasks\<close> submits \<open>do_task\<close> \<open>num_crawler\<close> times and \<open>write_result\<close> once to a pool
  of \<open>num_crawler + 1\<close> threads and leaves the \<open>with\<close> block when all of them have returned.
  A thread is \<open>Idle\<close> until it runs its first statement, \<open>Running\<close> inside its loop and
  \<open>Done\<close> after it. The threads interleave: a schedule is a list of events, each one a
  worker entering its function or going once through its loop. Here one pass through a
  loop is taken as one step; the finer system further down takes every access to a queue
  or to the bar as a step of its own, so that passes of different workers overlap. A pop
  that finds its queue empty is the timeout. Thread ids are the positions in the pool, the
  writer coming last.
\<close>

datatype status = Idle | Running | Done

record system =
  shared :: crawler_state
  crawlers :: "status list"
  writer_st :: status

datatype event = Start nat | Iterate nat outcome | StartWriter | IterateWriter write_outcome

definition step :: "py_env \<Rightarrow> int \<Rightarrow> event \<Rightarrow> system \<Rightarrow> system option" where
  "step env max_retry ev sys =
     (case ev of
        Start i \<Rightarrow>
          if i < length (crawlers sys) \<and> crawlers sys ! i = Idle
          then Some (sys\<lparr>shared := do_task_enter i (shared sys), crawlers := (crawlers sys)[i := Running]\<rparr>)
          else None
      | Iterate i out \<Rightarrow>
          if i < length (crawlers sys) \<and> crawlers sys ! i = Running then
            (case do_task_iter env max_retry (shared sys) out of
               (Continue, s', _) \<Rightarrow> Some (sys\<lparr>shared := s'\<rparr>)
             | (Break, s', _) \<Rightarrow>
                 (case do_task_exit i s' of
                    None \<Rightarrow> None
                  | Some s'' \<Rightarrow> Some (sys\<lparr>shared := s'', crawlers := (crawlers sys)[i := Done]\<rparr>)))
          else None
      | StartWriter \<Rightarrow>
          if writer_st sys = Idle
          then Some (sys\<lparr>shared := log INFO (WriterStarts (length (crawlers sys))) (shared sys),
                         writer_st := Running\<rparr>)
          else None
      | IterateWriter w \<Rightarrow>
          if writer_st sys = Running then
            (case write_result_iter (shared sys) w of
               (Continue, s') \<Rightarrow> Some (sys\<lparr>shared := s'\<rparr>)
             | (Break, s') \<Rightarrow>
                 Some (sys\<lparr>shared := log INFO (WriterStopped (length (crawlers sys))) s',
                           writer_st := Done\<rparr>))
          else None)"

fun run :: "py_env \<Rightarrow> int \<Rightarrow> event list \<Rightarrow> system \<Rightarrow> system option" where
  "run env max_retry [] sys = Some sys"
| "run env max_retry (ev # evs) sys =
     (case step env max_retry ev sys of None \<Rightarrow> None | Some sys' \<Rightarrow> run env max_retry evs sys')"

text \<open>
  Lines 43 to 53. \<open>ThreadPoolExecutor\<close> raises \<open>ValueError\<close> for \<open>max_workers \<le> 0\<close>. The
  result is \<open>None\<close> when the schedule stops before every thread has returned.
\<close>

definition assign_tasks_start :: "int \<Rightarrow> crawler_state \<Rightarrow> exn + system" where
  "assign_tasks_start num_crawler s =
     (let s1 = log INFO (PoolStarts (num_crawler + 1)) s in
      if num_crawler + 1 \<le> 0 then Inl ValueError
      else Inr \<lparr>shared = s1, crawlers = replicate (nat num_crawler) Idle, writer_st = Idle\<rparr>)"

definition all_done :: "system \<Rightarrow> bool" where
  "all_done sys \<longleftrightarrow> list_all (\<lambda>st. st = Done) (crawlers sys) \<and> writer_st sys = Done"

definition assign_tasks ::
  "py_env \<Rightarrow> int \<Rightarrow> int \<Rightarrow> event list \<Rightarrow> crawler_state \<Rightarrow> (exn + crawler_state) option" where
  "assign_tasks env num_crawler max_retry evs s =
     (case assign_tasks_start num_crawler s of
        Inl e \<Rightarrow> Some (Inl e)
      | Inr sys \<Rightarrow>
          (case run env max_retry evs sys of
             None \<Rightarrow> None
           | Some sys' \<Rightarrow>
               if all_done sys'
               then Some (Inr (emit [Close]
                      (log INFO (Retrieved (pbar_n (shared sys')) (pbar_total (shared sys'))) (shared sys'))))
               else None))"

text \<open>
  Counters read off the trace: stock tasks dropped after the last retry, stock tasks whose
  iteration ended in the handler, \<open>write\<close> answering false, the writer's handler running,
  and the writer meeting a frame without rows.
\<close>

definition is_dropped_stock :: "action \<Rightarrow> bool" where
  "is_dropped_stock a = (case a of Log lvl (StopRetrying f _ _) \<Rightarrow> f = get_stock | _ \<Rightarrow> False)"

definition is_failed_stock :: "action \<Rightarrow> bool" where
  "is_failed_stock a = (case a of Log lvl (TaskFailed f _) \<Rightarrow> f = get_stock | _ \<Rightarrow> False)"

definition is_persist_failure :: "action \<Rightarrow> bool" where
  "is_persist_failure a = (case a of WriteCall _ _ (Wrote ok) \<Rightarrow> \<not> ok | _ \<Rightarrow> False)"

definition is_writer_error :: "action \<Rightarrow> bool" where
  "is_writer_error a =
     (case a of WriteCall _ _ WriteRaised \<Rightarrow> True
              | Log lvl (ExceptionInfo AttributeError) \<Rightarrow> True
              | _ \<Rightarrow> False)"

definition is_empty_result :: "action \<Rightarrow> bool" where
  "is_empty_result a = (case a of TotalSub _ \<Rightarrow> True | _ \<Rightarrow> False)"

definition dropped_stocks :: "action list \<Rightarrow> nat" where
  "dropped_stocks tr = length (filter is_dropped_stock tr)"

definition failed_stocks :: "action list \<Rightarrow> nat" where
  "failed_stocks tr = length (filter is_failed_stock tr)"

definition persist_failures :: "action list \<Rightarrow> nat" where
  "persist_failures tr = length (filter is_persist_failure tr)"

definition writer_errors :: "action list \<Rightarrow> nat" where
  "writer_errors tr = length (filter is_writer_error tr)"

definition empty_results :: "action list \<Rightarrow> nat" where
  "empty_results tr = length (filter is_empty_result tr)"

definition lost :: "action list \<Rightarrow> nat" where
  "lost tr = dropped_stocks tr + failed_stocks tr + persist_failures tr + writer_errors tr"

definition stock_count :: "entry list \<Rightarrow> nat" where
  "stock_count heap = length (filter (\<lambda>e. func (snd e) = get_stock) heap)"

text \<open>
  The difference between \<open>total - n\<close> and the stock items that are still under way or
  were lost; the steps keep it unchanged.
\<close>

definition gap :: "crawler_state \<Rightarrow> int" where
  "gap s = pbar_total s - pbar_n s - int (stock_count (crawler s)) - int (length (writer s))
             - int (lost (trace s))"

text \<open>
  The right-hand side of the accounting property as the specification words it: results
  without rows plus persistence failures plus dropped stock tasks.
\<close>

definition claimed_gap :: "action list \<Rightarrow> nat" where
  "claimed_gap tr = empty_results tr + persist_failures tr + dropped_stocks tr"

definition quiescent :: "system \<Rightarrow> bool" where
  "quiescent sys \<longleftrightarrow>
     crawler (shared sys) = [] \<and> writer (shared sys) = [] \<and> other (shared sys) = [] \<and> all_done sys"

text \<open>Example runs of one crawler and the writer on a queue seeded with page 0.\<close>

definition page0_system :: system where
  "page0_system = \<lparr>shared = page0, crawlers = [Idle], writer_st = Idle\<rparr>"

definition empty_result_run :: "event list" where
  "empty_result_run =
     [Start 0, StartWriter,
      Iterate 0 (Returned (Some (Listing [''1.600000'']))),
      Iterate 0 (Returned (Some (Frame []))),
      Iterate 0 (Returned (Some (Listing []))),
      IterateWriter (Wrote True),
      Iterate 0 Raised,
      IterateWriter (Wrote True)]"

definition raising_stock_run :: "event list" where
  "raising_stock_run =
     [Start 0, StartWriter,
      Iterate 0 (Returned (Some (Listing [''1.600000'']))),
      Iterate 0 Raised,
      Iterate 0 (Returned (Some (Listing []))),
      Iterate 0 Raised,
      IterateWriter (Wrote True)]"


text \<open>What holds in every state of a crawler that starts with an empty queue.\<close>

definition idle_inv :: "crawler_state \<Rightarrow> bool" where
  "idle_inv s \<longleftrightarrow> crawler s = [] \<and> writer s = [] \<and> pbar_total s = 0 \<and> pbar_n s = 0
                 \<and> calls (trace s) = 0 \<and> put_tasks (trace s) = []"

section \<open>The passes step by step\<close>

text \<open>
  Between the \<open>get\<close> that takes an item off a queue and the effects of the pass, the item
  is held by the worker alone, and the effects themselves reach the shared state one
  after the other. An \<open>op\<close> is one such access: a piece of trace, the bar's total or \<open>n\<close>
  changed under \<open>PBAR_LOCK\<close> (the lock makes the update one step), or a put on a queue.
  \<open>crawl_ops\<close> lists the accesses of the rest of a pass of \<open>do_task\<close> after its \<open>get\<close>,
  statement by statement as in lines 69 to 116, and \<open>writer_ops\<close> those of \<open>write_result\<close>
  after its \<open>get\<close> (lines 133 to 147); applied in one go they give \<open>do_task_iter\<close> and
  \<open>write_result_iter\<close> (\<open>crawl_ops_pass\<close>, \<open>writer_ops_pass\<close>).
\<close>

datatype op =
    Emit "action list"
  | AddTotal int
  | SubTotal int
  | UpdateN int
  | PutC int task
  | PutW pyvalue string

definition apply_op :: "py_env \<Rightarrow> op \<Rightarrow> crawler_state \<Rightarrow> crawler_state" where
  "apply_op env o1 s =
     (case o1 of
        Emit acts \<Rightarrow> emit acts s
      | AddTotal k \<Rightarrow> add_total k s
      | SubTotal k \<Rightarrow> emit [Acquire, TotalSub k, Refresh, Release] (s\<lparr>pbar_total := pbar_total s - k\<rparr>)
      | UpdateN k \<Rightarrow> emit [Acquire, Update k, Release] (s\<lparr>pbar_n := pbar_n s + k\<rparr>)
      | PutC prior t \<Rightarrow> put_crawler env prior t s
      | PutW v path \<Rightarrow> put_writer v path s)"

definition raise_ops :: "exn \<Rightarrow> task \<Rightarrow> op list" where
  "raise_ops e t = [Emit [Log ERROR (ExceptionInfo e)], Emit [Log ERROR (TaskFailed (func t) (args t))]]"

definition crawl_ops :: "py_env \<Rightarrow> int \<Rightarrow> string \<Rightarrow> int \<Rightarrow> task \<Rightarrow> outcome \<Rightarrow> op list" where
  "crawl_ops env max_retry fp prior t out =
     Emit [Call (func t) (args t)] #
     (case out of
        Raised \<Rightarrow> raise_ops FuncRaised t
      | Returned result \<Rightarrow>
          (let t = t\<lparr>tries := tries t + 1\<rparr> in
           case result of
             None \<Rightarrow>
               if tries t \<ge> max_retry
               then [Emit [Log ERROR (StopRetrying (func t) (args t) max_retry)]]
               else [Emit [Log WARNING (ContinueRetrying (func t) (args t) (tries t))],
                     PutC (prior + 2) t]
           | Some v \<Rightarrow>
               if func t = get_list then
                 (case v of
                    Frame _ \<Rightarrow> raise_ops ValueError t
                  | Listing ids \<Rightarrow>
                      if ids = [] then []
                      else AddTotal (int (length ids)) #
                           map (\<lambda>stk_id. PutC 0 (each_task get_stock [StrArg stk_id] 0)) ids @
                           (case args t of
                              [] \<Rightarrow> raise_ops IndexError t
                            | IntArg page # _ \<Rightarrow> [PutC 1 (each_task get_list [IntArg (page + 1)] 0)]
                            | StrArg _ # _ \<Rightarrow> raise_ops TypeError t))
               else
                 (case args t of
                    [] \<Rightarrow> raise_ops IndexError t
                  | IntArg _ # _ \<Rightarrow> raise_ops TypeError t
                  | StrArg stk_id # _ \<Rightarrow>
                      (case percent env fp (drop 2 stk_id) of
                         None \<Rightarrow> raise_ops TypeError t
                       | Some path \<Rightarrow> [PutW v path]))))"

definition writer_ops :: "pyvalue \<Rightarrow> string \<Rightarrow> write_outcome \<Rightarrow> op list" where
  "writer_ops result fp w =
     (case result of
        Listing _ \<Rightarrow> [Emit [Log ERROR (ExceptionInfo AttributeError)]]
      | Frame rows \<Rightarrow>
          if rows = [] then [SubTotal 1]
          else Emit [WriteCall result fp w] #
               (case w of
                  WriteRaised \<Rightarrow> [Emit [Log ERROR (ExceptionInfo WriteError)]]
                | Wrote ok \<Rightarrow> if ok then [UpdateN 1] else []))"

text \<open>
  A worker has not started, is at its \<open>get\<close>, holds the item it took, is applying the
  accesses that are left of its pass, or has returned. An event is one worker doing its
  next step; workers at different places of their passes interleave freely.
\<close>

datatype 'a phase = NotStarted | Polling | Holding 'a | Applying "op list" | Finished

record fine_system =
  fshared :: crawler_state
  fcrawlers :: "entry phase list"
  fwriter :: "(pyvalue \<times> string) phase"

datatype fine_event =
    Enter nat
  | Get nat
  | CallFunc nat outcome
  | Apply nat
  | EnterWriter
  | GetResult
  | HandleResult write_outcome
  | ApplyWriter

definition fine_step :: "py_env \<Rightarrow> int \<Rightarrow> fine_event \<Rightarrow> fine_system \<Rightarrow> fine_system option" where
  "fine_step env max_retry ev sys =
     (case ev of
        Enter i \<Rightarrow>
          if i < length (fcrawlers sys) \<and> fcrawlers sys ! i = NotStarted
          then Some (sys\<lparr>fshared := do_task_enter i (fshared sys),
                         fcrawlers := (fcrawlers sys)[i := Polling]\<rparr>)
          else None
      | Get i \<Rightarrow>
          if i < length (fcrawlers sys) \<and> fcrawlers sys ! i = Polling then
            (case heappop (task_lt env) (crawler (fshared sys)) of
               None \<Rightarrow>
                 (case do_task_exit i (fshared sys) of
                    None \<Rightarrow> None
                  | Some s' \<Rightarrow> Some (sys\<lparr>fshared := s', fcrawlers := (fcrawlers sys)[i := Finished]\<rparr>))
             | Some (e, q) \<Rightarrow>
                 Some (sys\<lparr>fshared := (fshared sys)\<lparr>crawler := q\<rparr>,
                           fcrawlers := (fcrawlers sys)[i := Holding e]\<rparr>))
          else None
      | CallFunc i out \<Rightarrow>
          if i < length (fcrawlers sys) then
            (case fcrawlers sys ! i of
               Holding (prior, t) \<Rightarrow>
                 Some (sys\<lparr>fcrawlers := (fcrawlers sys)
                              [i := Applying (crawl_ops env max_retry (save_fp (fshared sys)) prior t out)]\<rparr>)
             | _ \<Rightarrow> None)
          else None
      | Apply i \<Rightarrow>
          if i < length (fcrawlers sys) then
            (case fcrawlers sys ! i of
               Applying [] \<Rightarrow> Some (sys\<lparr>fcrawlers := (fcrawlers sys)[i := Polling]\<rparr>)
             | Applying (o1 # ops) \<Rightarrow>
                 Some (sys\<lparr>fshared := apply_op env o1 (fshared sys),
                           fcrawlers := (fcrawlers sys)[i := (if ops = [] then Polling else Applying ops)]\<rparr>)
             | _ \<Rightarrow> None)
          else None
      | EnterWriter \<Rightarrow>
          if fwriter sys = NotStarted
          then Some (sys\<lparr>fshared := log INFO (WriterStarts (length (fcrawlers sys))) (fshared sys),
                         fwriter := Polling\<rparr>)
          else None
      | GetResult \<Rightarrow>
          if fwriter sys = Polling then
            (case writer (fshared sys) of
               [] \<Rightarrow>
                 if other (fshared sys) = []
                 then Some (sys\<lparr>fshared := log INFO (WriterStopped (length (fcrawlers sys))) (fshared sys),
                                fwriter := Finished\<rparr>)
                 else Some sys
             | item # rest \<Rightarrow>
                 Some (sys\<lparr>fshared := (fshared sys)\<lparr>writer := rest\<rparr>, fwriter := Holding item\<rparr>))
          else None
      | HandleResult w \<Rightarrow>
          (case fwriter sys of
             Holding (result, fp) \<Rightarrow> Some (sys\<lparr>fwriter := Applying (writer_ops result fp w)\<rparr>)
           | _ \<Rightarrow> None)
      | ApplyWriter \<Rightarrow>
          (case fwriter sys of
             Applying [] \<Rightarrow> Some (sys\<lparr>fwriter := Polling\<rparr>)
           | Applying (o1 # ops) \<Rightarrow>
               Some (sys\<lparr>fshared := apply_op env o1 (fshared sys),
                         fwriter := (if ops = [] then Polling else Applying ops)\<rparr>)
           | _ \<Rightarrow> None))"

fun fine_run :: "py_env \<Rightarrow> int \<Rightarrow> fine_event list \<Rightarrow> fine_system \<Rightarrow> fine_system option" where
  "fine_run env max_retry [] sys = Some sys"
| "fine_run env max_retry (ev # evs) sys =
     (case fine_step env max_retry ev sys of
        None \<Rightarrow> None
      | Some sys' \<Rightarrow> fine_run env max_retry evs sys')"

definition fine_start :: "nat \<Rightarrow> crawler_state \<Rightarrow> fine_system" where
  "fine_start n s = \<lparr>fshared = s, fcrawlers = replicate n NotStarted, fwriter = NotStarted\<rparr>"

text \<open>Quiescence: the three queues are empty and every worker has returned.\<close>

definition fine_quiescent :: "fine_system \<Rightarrow> bool" where
  "fine_quiescent sys \<longleftrightarrow>
     crawler (fshared sys) = [] \<and> writer (fshared sys) = [] \<and> other (fshared sys) = []
     \<and> list_all (\<lambda>p. p = Finished) (fcrawlers sys) \<and> fwriter sys = Finished"

text \<open>
  What an access adds to \<open>gap\<close>, and what the item a worker holds, or the accesses it has
  yet to apply, will take from it.
\<close>

definition op_gap :: "op \<Rightarrow> int" where
  "op_gap o1 =
     (case o1 of
        Emit acts \<Rightarrow> - int (lost acts)
      | AddTotal k \<Rightarrow> k
      | SubTotal k \<Rightarrow> - k
      | UpdateN k \<Rightarrow> - k
      | PutC prior t \<Rightarrow> (if func t = get_stock then - 1 else 0)
      | PutW v path \<Rightarrow> - 1)"

definition crawler_in_flight :: "entry phase \<Rightarrow> int" where
  "crawler_in_flight p =
     (case p of
        Holding e \<Rightarrow> (if func (snd e) = get_stock then 1 else 0)
      | Applying ops \<Rightarrow> - sum_list (map op_gap ops)
      | _ \<Rightarrow> 0)"

definition writer_in_flight :: "(pyvalue \<times> string) phase \<Rightarrow> int" where
  "writer_in_flight p =
     (case p of
        Holding item \<Rightarrow> 1
      | Applying ops \<Rightarrow> - sum_list (map op_gap ops)
      | _ \<Rightarrow> 0)"

definition in_flight :: "fine_system \<Rightarrow> int" where
  "in_flight sys = sum_list (map crawler_in_flight (fcrawlers sys)) + writer_in_flight (fwriter sys)"

text \<open>
  Two runs on a queue seeded with page 0: one crawler and the writer to quiescence, with one
  persistence failure; and two crawlers that have each just taken a task off the queue.
\<close>

definition fine_write_failure_run :: "fine_event list" where
  "fine_write_failure_run =
     [Enter 0, EnterWriter,
      Get 0, CallFunc 0 (Returned (Some (Listing [''1.600000'', ''0.000001'']))),
      Apply 0, Apply 0, Apply 0, Apply 0, Apply 0,
      Get 0, CallFunc 0 (Returned (Some (Frame [[''2020-01-02'', ''3.1'']]))), Apply 0, Apply 0,
      GetResult,
      Get 0, CallFunc 0 (Returned (Some (Frame [[''2020-01-02'', ''7.5'']]))), Apply 0, Apply 0,
      HandleResult (Wrote True), ApplyWriter, ApplyWriter,
      GetResult, HandleResult (Wrote False), ApplyWriter,
      Get 0, CallFunc 0 (Returned (Some (Listing []))), Apply 0,
      Get 0,
      GetResult]"

definition two_pops_run :: "fine_event list" where
  "two_pops_run =
     [Enter 0, Enter 1,
      Get 0, CallFunc 0 (Returned (Some (Listing [''1.600000'']))),
      Apply 0, Apply 0, Apply 0, Apply 0,
      Get 0, Get 1]"


text \<open>A state of the coarse system read as a state of the fine one.\<close>

definition refine_status :: "status \<Rightarrow> 'a phase" where
  "refine_status st = (case st of Idle \<Rightarrow> NotStarted | Running \<Rightarrow> Polling | Done \<Rightarrow> Finished)"

definition refine :: "system \<Rightarrow> fine_system" where
  "refine sys = \<lparr>fshared = shared sys, fcrawlers = map refine_status (crawlers sys),
                 fwriter = refine_status (writer_st sys)\<rparr>"
section \<open>The heap operations keep the multiset of entries\<close>

declare siftdown.simps [simp del] bubble.simps [simp del]

lemma entry_lt_le: "entry_lt lt a b \<Longrightarrow> fst a \<le> fst b"
  by (auto simp: entry_lt_def split: if_splits)

lemma not_entry_lt_le: "\<not> entry_lt lt a b \<Longrightarrow> fst b \<le> fst a"
  by (auto simp: entry_lt_def split: if_splits)

lemma length_siftdown [simp]: "length (siftdown lt heap startpos pos newitem) = length heap"
proof (induction lt heap startpos pos newitem rule: siftdown.induct)
  case (1 lt heap startpos pos newitem)
  show ?case
    by (subst siftdown.simps) (simp add: Let_def 1)
qed

lemma mset_move_hole:
  assumes "p < length heap" "q < length heap" "p \<noteq> q"
  shows "mset (heap[p := heap ! q, q := x]) = mset (heap[p := x])"
  using assms by (simp add: mset_update nth_list_update)

lemma mset_siftdown:
  "pos < length heap \<Longrightarrow> mset (siftdown lt heap startpos pos newitem) = mset (heap[pos := newitem])"
proof (induction lt heap startpos pos newitem rule: siftdown.induct)
  case (1 lt heap startpos pos newitem)
  show ?case
  proof (cases "pos > startpos \<and> entry_lt lt newitem (heap ! ((pos - 1) div 2))")
    case True
    then have lt: "(pos - 1) div 2 < pos" by auto
    have "mset (siftdown lt (heap[pos := heap ! ((pos - 1) div 2)]) startpos ((pos - 1) div 2) newitem)
          = mset (heap[pos := heap ! ((pos - 1) div 2), (pos - 1) div 2 := newitem])"
      using True "1.prems" lt by (intro "1.IH") auto
    also have "\<dots> = mset (heap[pos := newitem])"
      using "1.prems" lt by (intro mset_move_hole) auto
    finally show ?thesis
      using True by (subst siftdown.simps) (simp add: Let_def)
  next
    case False
    then show ?thesis
      by (subst siftdown.simps) (auto simp: Let_def)
  qed
qed

lemma mset_heappush: "mset (heappush lt heap item) = add_mset item (mset heap)"
  by (simp add: heappush_def mset_siftdown)

lemma length_heappush [simp]: "length (heappush lt heap item) = Suc (length heap)"
  by (simp add: heappush_def)



lemma bubble_step:
  "2 * pos + 1 < length heap \<Longrightarrow>
   bubble lt heap pos = bubble lt (heap[pos := heap ! smaller_child lt heap pos]) (smaller_child lt heap pos)"
  by (subst bubble.simps) (simp add: Let_def smaller_child_def)

lemma bubble_stop: "\<not> 2 * pos + 1 < length heap \<Longrightarrow> bubble lt heap pos = (heap, pos)"
  by (subst bubble.simps) (simp add: Let_def)

lemma smaller_child_bounds:
  "2 * pos + 1 < length heap \<Longrightarrow>
   smaller_child lt heap pos < length heap \<and> pos < smaller_child lt heap pos"
  by (simp add: smaller_child_def)

lemma bubble_induct [consumes 0, case_names stop step]:
  assumes stop: "\<And>heap pos. \<not> 2 * pos + 1 < length heap \<Longrightarrow> P heap pos"
      and step: "\<And>heap pos. 2 * pos + 1 < length heap \<Longrightarrow>
                   P (heap[pos := heap ! smaller_child lt heap pos]) (smaller_child lt heap pos) \<Longrightarrow> P heap pos"
  shows "P heap pos"
proof (induction "length heap - pos" arbitrary: heap pos rule: less_induct)
  case less
  show ?case
  proof (cases "2 * pos + 1 < length heap")
    case True
    from smaller_child_bounds[OF True, of lt]
    have "length (heap[pos := heap ! smaller_child lt heap pos]) - smaller_child lt heap pos < length heap - pos"
      by (simp add: diff_less_mono2)
    from less[OF this] True show ?thesis by (rule step[rotated])
  next
    case False
    then show ?thesis by (rule stop)
  qed
qed

lemma bubble_length: "length (fst (bubble lt heap pos)) = length heap"
proof (induction heap pos rule: bubble_induct[where lt = lt])
  case (stop heap pos)
  then show ?case by (simp add: bubble_stop)
next
  case (step heap pos)
  then show ?case by (simp add: bubble_step)
qed

lemma bubble_mset:
  "pos < length heap \<Longrightarrow>
   snd (bubble lt heap pos) < length heap \<and>
   mset ((fst (bubble lt heap pos))[snd (bubble lt heap pos) := x]) = mset (heap[pos := x])"
proof (induction heap pos rule: bubble_induct[where lt = lt])
  case (stop heap pos)
  then show ?case by (simp add: bubble_stop)
next
  case (step heap pos)
  let ?c = "smaller_child lt heap pos"
  from smaller_child_bounds[OF step.hyps, of lt] have c: "?c < length heap" "pos < ?c" by auto
  have "mset (heap[pos := heap ! ?c, ?c := x]) = mset (heap[pos := x])"
    using step.prems c by (intro mset_move_hole) auto
  with step.IH c show ?case
    by (simp add: bubble_step[OF step.hyps])
qed

lemma mset_siftup:
  assumes "pos < length heap"
  shows "mset (siftup lt heap pos) = mset heap"
proof -
  from bubble_mset[OF assms, of lt "heap ! pos"] bubble_length[of lt heap pos]
  show ?thesis
    by (simp add: siftup_def split_beta Let_def mset_siftdown)
qed

lemma mset_heappop:
  assumes "heappop lt heap = Some (x, heap')"
  shows "mset heap = add_mset x (mset heap')"
proof -
  from assms have ne: "heap \<noteq> []" by (auto simp: heappop_def split: if_splits)
  then obtain rest lastelt where h: "heap = rest @ [lastelt]"
    by (metis append_butlast_last_id)
  show ?thesis
  proof (cases "rest = []")
    case True
    with assms h show ?thesis by (simp add: heappop_def)
  next
    case False
    then obtain r rs where rest: "rest = r # rs" by (cases rest) auto
    from assms h False have x: "x = r" and heap': "heap' = siftup lt (rest[0 := lastelt]) 0"
      by (auto simp: heappop_def Let_def rest)
    have "mset heap' = mset (rest[0 := lastelt])"
      unfolding heap' using False by (intro mset_siftup) simp
    then show ?thesis by (simp add: h x rest)
  qed
qed

lemma heappop_None [simp]: "heappop lt heap = None \<longleftrightarrow> heap = []"
  by (simp add: heappop_def Let_def)

lemma heappop_Nil [simp]: "heappop lt [] = None"
  by (simp add: heappop_def)

lemma heappop_single: "heappop lt [e] = Some (e, [])"
  by (simp add: heappop_def)

lemma heappush_empty: "heappush lt [] e = [e]"
  by (simp add: heappush_def siftdown.simps)

section \<open>The heap operations keep the heap condition\<close>

lemma heap_ok_iff:
  "heap_ok h \<longleftrightarrow> (\<forall>i. 0 < i \<and> i < length h \<longrightarrow> fst (h ! ((i - 1) div 2)) \<le> fst (h ! i))"
  by (auto simp: heap_ok_def list_all_iff)

lemma parent_less: "0 < i \<Longrightarrow> (i - 1) div 2 < (i::nat)"
  by arith

lemma parent_eq: "0 < i \<Longrightarrow> (i - 1) div 2 = p \<longleftrightarrow> i = 2 * p + 1 \<or> i = 2 * p + 2" for i p :: nat
  by arith

lemma heap_ok_root:
  assumes "heap_ok h" "i < length h"
  shows "fst (h ! 0) \<le> fst (h ! i)"
  using assms(2)
proof (induction i rule: less_induct)
  case (less i)
  show ?case
  proof (cases "i = 0")
    case True
    then show ?thesis by simp
  next
    case False
    then have p: "(i - 1) div 2 < i" by arith
    with less.prems have "fst (h ! 0) \<le> fst (h ! ((i - 1) div 2))"
      by (intro less.IH) auto
    moreover from assms(1) False less.prems have "fst (h ! ((i - 1) div 2)) \<le> fst (h ! i)"
      by (simp add: heap_ok_iff)
    ultimately show ?thesis by simp
  qed
qed

lemma sift_place:
  assumes inv: "sift_inv h pos x"
      and stop: "pos = 0 \<or> \<not> entry_lt lt x (h ! ((pos - 1) div 2))"
  shows "heap_ok (h[pos := x])"
  unfolding heap_ok_iff
proof (intro allI impI)
  fix i assume i: "0 < i \<and> i < length (h[pos := x])"
  then have pi: "(i - 1) div 2 < i" by arith
  show "fst (h[pos := x] ! ((i - 1) div 2)) \<le> fst (h[pos := x] ! i)"
  proof (cases "i = pos")
    case True
    with i stop have "fst (h ! ((pos - 1) div 2)) \<le> fst x"
      by (auto dest: not_entry_lt_le)
    with True i pi show ?thesis by simp
  next
    case False
    show ?thesis
    proof (cases "(i - 1) div 2 = pos")
      case True
      with inv i have "fst x \<le> fst (h ! i)" "pos < length h"
        by (simp_all add: sift_inv_def hole_inv_def)
      with True False i show ?thesis by simp
    next
      case False
      with inv i \<open>i \<noteq> pos\<close> show ?thesis by (simp add: sift_inv_def hole_inv_def)
    qed
  qed
qed

lemma sift_move:
  assumes inv: "sift_inv h pos x" and pos: "0 < pos"
      and lt: "entry_lt lt x (h ! ((pos - 1) div 2))"
  shows "sift_inv (h[pos := h ! ((pos - 1) div 2)]) ((pos - 1) div 2) x"
proof -
  let ?q = "(pos - 1) div 2"
  let ?h = "h[pos := h ! ?q]"
  from pos have q: "?q < pos" by arith
  from inv have len: "pos < length h"
    and c1: "\<And>i. 0 < i \<Longrightarrow> i < length h \<Longrightarrow> i \<noteq> pos \<Longrightarrow> (i - 1) div 2 \<noteq> pos
                \<Longrightarrow> fst (h ! ((i - 1) div 2)) \<le> fst (h ! i)"
    and c2: "\<And>c. 0 < c \<Longrightarrow> c < length h \<Longrightarrow> (c - 1) div 2 = pos
                \<Longrightarrow> fst (h ! ?q) \<le> fst (h ! c)"
    using pos by (auto simp: sift_inv_def hole_inv_def)
  from lt have xq: "fst x \<le> fst (h ! ?q)" by (rule entry_lt_le)
  have qq: "0 < ?q \<Longrightarrow> fst (h ! ((?q - 1) div 2)) \<le> fst (h ! ?q)"
  proof -
    assume "0 < ?q"
    then have "(?q - 1) div 2 < ?q" by arith
    with \<open>0 < ?q\<close> q len show ?thesis by (intro c1) auto
  qed
  have A: "fst (?h ! ((i - 1) div 2)) \<le> fst (?h ! i)"
    if "0 < i" "i < length h" "i \<noteq> ?q" "(i - 1) div 2 \<noteq> ?q" for i
  proof -
    from that have ip: "i \<noteq> pos" by auto
    show ?thesis
    proof (cases "(i - 1) div 2 = pos")
      case True
      with that c2[of i] ip len show ?thesis by simp
    next
      case False
      with that c1[of i] ip show ?thesis by simp
    qed
  qed
  have B: "fst x \<le> fst (?h ! c) \<and> (0 < ?q \<longrightarrow> fst (?h ! ((?q - 1) div 2)) \<le> fst (?h ! c))"
    if "0 < c" "c < length h" "(c - 1) div 2 = ?q" for c
  proof (cases "c = pos")
    case True
    have "0 < ?q \<Longrightarrow> (?q - 1) div 2 \<noteq> pos" using q by arith
    with True len xq qq show ?thesis by auto
  next
    case False
    from that q have "(c - 1) div 2 \<noteq> pos" by simp
    with that False have qc: "fst (h ! ?q) \<le> fst (h ! c)" using c1[of c] by simp
    have "0 < ?q \<Longrightarrow> (?q - 1) div 2 \<noteq> pos" using q by arith
    with False xq qq qc show ?thesis by auto
  qed
  from q len have "?q < length ?h" by simp
  with A B show ?thesis
    unfolding sift_inv_def hole_inv_def by auto
qed

lemma siftdown_heap_ok: "sift_inv h pos x \<Longrightarrow> heap_ok (siftdown lt h 0 pos x)"
proof (induction pos arbitrary: h rule: less_induct)
  case (less pos)
  show ?case
  proof (cases "0 < pos \<and> entry_lt lt x (h ! ((pos - 1) div 2))")
    case True
    then have "(pos - 1) div 2 < pos" by arith
    from less.IH[OF this sift_move[OF less.prems conjunct1[OF True] conjunct2[OF True]]] True show ?thesis
      by (subst siftdown.simps) (simp add: Let_def)
  next
    case False
    then have "pos = 0 \<or> \<not> entry_lt lt x (h ! ((pos - 1) div 2))" by auto
    from sift_place[OF less.prems this] False show ?thesis
      by (subst siftdown.simps) (auto simp: Let_def)
  qed
qed

lemma heappush_heap_ok:
  assumes "heap_ok h"
  shows "heap_ok (heappush lt h e)"
proof -
  have "sift_inv (h @ [e]) (length h) e"
    unfolding sift_inv_def hole_inv_def
  proof (intro conjI allI impI)
    show "length h < length (h @ [e])" by simp
  next
    fix i assume "0 < i \<and> i < length (h @ [e]) \<and> i \<noteq> length h \<and> (i - 1) div 2 \<noteq> length h"
    then have i: "0 < i" "i < length h" by auto
    then have "(i - 1) div 2 < length h" by arith
    with assms i show "fst ((h @ [e]) ! ((i - 1) div 2)) \<le> fst ((h @ [e]) ! i)"
      by (simp add: heap_ok_iff nth_append)
  next
    fix c assume "0 < c \<and> c < length (h @ [e]) \<and> (c - 1) div 2 = length h \<and> 0 < length h"
    then have False by (simp, arith)
    then show "fst ((h @ [e]) ! ((length h - 1) div 2)) \<le> fst ((h @ [e]) ! c)" ..
  next
    fix c assume "0 < c \<and> c < length (h @ [e]) \<and> (c - 1) div 2 = length h"
    then have False by (simp, arith)
    then show "fst e \<le> fst ((h @ [e]) ! c)" ..
  qed
  then show ?thesis by (simp add: heappush_def siftdown_heap_ok)
qed

lemma smaller_child_cases:
  assumes "2 * pos + 1 < length h"
  shows "(smaller_child lt h pos = 2 * pos + 1
            \<and> (2 * pos + 2 < length h \<longrightarrow> fst (h ! (2 * pos + 1)) \<le> fst (h ! (2 * pos + 2))))
       \<or> (smaller_child lt h pos = 2 * pos + 2 \<and> 2 * pos + 2 < length h
            \<and> fst (h ! (2 * pos + 2)) \<le> fst (h ! (2 * pos + 1)))"
  by (auto simp: smaller_child_def dest: entry_lt_le not_entry_lt_le)

lemma hole_move:
  assumes inv: "hole_inv h pos" and child: "2 * pos + 1 < length h"
  shows "hole_inv (h[pos := h ! smaller_child lt h pos]) (smaller_child lt h pos)"
proof -
  let ?c = "smaller_child lt h pos"
  let ?h = "h[pos := h ! ?c]"
  from smaller_child_bounds[OF child, of lt] have c: "?c < length h" "pos < ?c" by auto
  from smaller_child_cases[OF child, of lt] have pc: "(?c - 1) div 2 = pos" by auto
  from inv have len: "pos < length h"
    and c1: "\<And>i. 0 < i \<Longrightarrow> i < length h \<Longrightarrow> i \<noteq> pos \<Longrightarrow> (i - 1) div 2 \<noteq> pos
                \<Longrightarrow> fst (h ! ((i - 1) div 2)) \<le> fst (h ! i)"
    and c2: "\<And>d. 0 < d \<Longrightarrow> d < length h \<Longrightarrow> (d - 1) div 2 = pos \<Longrightarrow> 0 < pos
                \<Longrightarrow> fst (h ! ((pos - 1) div 2)) \<le> fst (h ! d)"
    by (auto simp: hole_inv_def)
  have sib: "fst (h ! ?c) \<le> fst (h ! i)" if "0 < i" "i < length h" "(i - 1) div 2 = pos" for i
  proof -
    from that have "i = 2 * pos + 1 \<or> i = 2 * pos + 2" by arith
    with smaller_child_cases[OF child, of lt] that show ?thesis by auto
  qed
  have A: "fst (?h ! ((i - 1) div 2)) \<le> fst (?h ! i)"
    if "0 < i" "i < length h" "i \<noteq> ?c" "(i - 1) div 2 \<noteq> ?c" for i
  proof (cases "i = pos")
    case True
    with that have "0 < pos" by simp
    then have "(pos - 1) div 2 \<noteq> pos" by arith
    with True len c2[of ?c] c pc \<open>0 < pos\<close> show ?thesis by simp
  next
    case False
    show ?thesis
    proof (cases "(i - 1) div 2 = pos")
      case True
      with sib[of i] that False len show ?thesis by simp
    next
      case F2: False
      with c1[of i] that False show ?thesis by simp
    qed
  qed
  have B: "fst (?h ! ((?c - 1) div 2)) \<le> fst (?h ! d)"
    if "0 < d" "d < length h" "(d - 1) div 2 = ?c" for d
  proof -
    from that c have "pos < d" "d \<noteq> pos" "(d - 1) div 2 \<noteq> pos" by arith+
    with c1[of d] that have "fst (h ! ?c) \<le> fst (h ! d)" by simp
    with pc len \<open>d \<noteq> pos\<close> show ?thesis by simp
  qed
  from c A B show ?thesis
    unfolding hole_inv_def by auto
qed

lemma hole_leaf:
  assumes "hole_inv h pos" and "\<not> 2 * pos + 1 < length h"
  shows "sift_inv (h[pos := x]) pos x"
proof -
  have no_child: "\<not> (0 < c \<and> c < length h \<and> (c - 1) div 2 = pos)" for c
    using assms(2) by arith
  have "fst (h[pos := x] ! ((i - 1) div 2)) \<le> fst (h[pos := x] ! i)"
    if "0 < i" "i < length h" "i \<noteq> pos" "(i - 1) div 2 \<noteq> pos" for i
    using that assms(1) by (simp add: hole_inv_def)
  with assms(1) no_child show ?thesis
    unfolding sift_inv_def hole_inv_def by auto
qed

lemma bubble_sift_inv:
  "hole_inv h pos \<Longrightarrow>
   sift_inv ((fst (bubble lt h pos))[snd (bubble lt h pos) := x]) (snd (bubble lt h pos)) x"
proof (induction h pos rule: bubble_induct[where lt = lt])
  case (stop heap pos)
  then show ?case by (simp add: bubble_stop hole_leaf)
next
  case (step heap pos)
  from step.IH[OF hole_move[OF step.prems step.hyps]] show ?case
    by (simp add: bubble_step[OF step.hyps])
qed

lemma siftup_root_heap_ok:
  assumes "hole_inv h 0"
  shows "heap_ok (siftup lt h 0)"
  using siftdown_heap_ok[OF bubble_sift_inv[OF assms, of lt "h ! 0"], of lt]
  by (simp add: siftup_def split_beta Let_def)

lemma heap_ok_butlast: "heap_ok (h @ [e]) \<Longrightarrow> heap_ok h"
  unfolding heap_ok_iff
proof (intro allI impI)
  fix i assume a: "\<forall>i. 0 < i \<and> i < length (h @ [e]) \<longrightarrow> fst ((h @ [e]) ! ((i - 1) div 2)) \<le> fst ((h @ [e]) ! i)"
    and i: "0 < i \<and> i < length h"
  then have "(i - 1) div 2 < length h" by arith
  with a[rule_format, of i] i show "fst (h ! ((i - 1) div 2)) \<le> fst (h ! i)"
    by (simp add: nth_append)
qed

lemma heappop_heap_ok:
  assumes ok: "heap_ok h" and pop: "heappop lt h = Some (x, h')"
  shows "heap_ok h' \<and> (\<forall>e \<in> set h. fst x \<le> fst e)"
proof -
  from pop have ne: "h \<noteq> []" by (auto simp: heappop_def split: if_splits)
  then obtain rest lastelt where h: "h = rest @ [lastelt]"
    by (metis append_butlast_last_id)
  show ?thesis
  proof (cases "rest = []")
    case True
    with pop h show ?thesis by (simp add: heappop_def heap_ok_def)
  next
    case False
    then obtain r rs where rest: "rest = r # rs" by (cases rest) auto
    from pop h False have x: "x = r" and h': "h' = siftup lt (rest[0 := lastelt]) 0"
      by (auto simp: heappop_def Let_def rest)
    from ok h have okr: "heap_ok rest" by (auto dest: heap_ok_butlast)
    have "hole_inv (rest[0 := lastelt]) 0"
      using okr False by (auto simp: hole_inv_def heap_ok_iff)
    then have "heap_ok h'" unfolding h' by (rule siftup_root_heap_ok)
    moreover have "fst x \<le> fst e" if "e \<in> set h" for e
    proof -
      from that obtain i where "i < length h" "h ! i = e" by (auto simp: in_set_conv_nth)
      with heap_ok_root[OF ok, of i] show ?thesis by (simp add: h rest x)
    qed
    ultimately show ?thesis by blast
  qed
qed

lemma heap_ok_Nil [simp]: "heap_ok []"
  by (simp add: heap_ok_def)

lemma push_all_heap_ok: "heap_ok h \<Longrightarrow> heap_ok (push_all lt es h)"
  unfolding push_all_def by (induction es arbitrary: h) (simp_all add: heappush_heap_ok)

lemma mset_push_all: "mset (push_all lt es h) = mset es + mset h"
  unfolding push_all_def by (induction es arbitrary: h) (simp_all add: mset_heappush)

lemma heappop_length: "heappop lt h = Some (x, h') \<Longrightarrow> length h = Suc (length h')"
  by (drule mset_heappop) (metis size_add_mset size_mset)

lemma mset_pop_n: "length h \<le> n \<Longrightarrow> mset (pop_n lt n h) = mset h"
proof (induction n arbitrary: h)
  case 0
  then show ?case by simp
next
  case (Suc n)
  show ?case
  proof (cases "heappop lt h")
    case None
    then show ?thesis by simp
  next
    case (Some p)
    obtain x h' where p: "p = (x, h')" by (cases p)
    from Some p heappop_length[of lt h x h'] Suc.prems have "length h' \<le> n" by simp
    from Suc.IH[OF this] Some p mset_heappop[of lt h x h'] show ?thesis by simp
  qed
qed

lemma sorted_pop_n: "heap_ok h \<Longrightarrow> length h \<le> n \<Longrightarrow> sorted (map fst (pop_n lt n h))"
proof (induction n arbitrary: h)
  case 0
  then show ?case by simp
next
  case (Suc n)
  show ?case
  proof (cases "heappop lt h")
    case None
    then show ?thesis by simp
  next
    case (Some p)
    obtain x h' where p: "p = (x, h')" by (cases p)
    with Some have pop: "heappop lt h = Some (x, h')" by simp
    from heappop_length[OF pop] Suc.prems have len: "length h' \<le> n" by simp
    from heappop_heap_ok[OF Suc.prems(1) pop] have ok: "heap_ok h'" and mn: "\<forall>e\<in>set h. fst x \<le> fst e"
      by auto
    have "set (pop_n lt n h') = set h'"
      using mset_pop_n[OF len, of lt] by (metis set_mset_mset)
    also have "\<dots> \<subseteq> set h"
      using mset_heappop[OF pop] by (metis set_mset_add_mset_insert set_mset_mset subset_insertI)
    finally have "\<forall>e\<in>set (pop_n lt n h'). fst x \<le> fst e" using mn by blast
    with Suc.IH[OF ok len] pop show ?thesis by simp
  qed
qed

lemma two_pushes:
  "push_all lt [(p, y), (p, x)] [] = (if x \<noteq> y \<and> lt x y then [(p, x), (p, y)] else [(p, y), (p, x)])"
  by (simp add: push_all_def heappush_def siftdown.simps entry_lt_def Let_def)

lemma pop_two: "pop_all lt [a, b] = [a, b]"
  by (simp add: pop_all_def heappop_def siftup_def bubble.simps siftdown.simps Let_def numeral_2_eq_2)

lemma four_unordered:
  assumes no: "\<And>x y. x \<in> {a, b, c, d} \<Longrightarrow> y \<in> {a, b, c, d} \<Longrightarrow> x \<noteq> y \<Longrightarrow> \<not> lt x y"
  shows "pop_all lt (push_all lt [(p, a), (p, b), (p, c), (p, d)] []) = [(p, a), (p, c), (p, b), (p, d)]"
proof -
  have el: "entry_lt lt (p, x) (p, y) = False" if "x \<in> {a, b, c, d}" "y \<in> {a, b, c, d}" for x y
    using no[OF that] by (auto simp: entry_lt_def)
  have push: "push_all lt [(p, a), (p, b), (p, c), (p, d)] [] = [(p, a), (p, b), (p, c), (p, d)]"
    by (simp add: push_all_def heappush_def siftdown.simps el Let_def)
  have pop1: "heappop lt [(p, a), (p, b), (p, c), (p, d)] = Some ((p, a), [(p, c), (p, b), (p, d)])"
    by (simp add: heappop_def siftup_def bubble.simps siftdown.simps el Let_def numeral_eq_Suc)
  have pop2: "heappop lt [(p, c), (p, b), (p, d)] = Some ((p, c), [(p, b), (p, d)])"
    by (simp add: heappop_def siftup_def bubble.simps siftdown.simps el Let_def numeral_eq_Suc)
  have pop3: "heappop lt [(p, b), (p, d)] = Some ((p, b), [(p, d)])"
    by (simp add: heappop_def siftup_def bubble.simps siftdown.simps el Let_def numeral_eq_Suc)
  show ?thesis
    unfolding push by (simp add: pop_all_def numeral_eq_Suc pop1 pop2 pop3 heappop_single)
qed

text \<open>
  Whatever the order on tasks is, some run of puts at one priority is not popped in the
  order of insertion.
\<close>

lemma fifo_fails_for_every_order:
  "\<exists>es. distinct es \<and> (\<forall>e \<in> set es. fst e = 0) \<and> pop_all lt (push_all lt es []) \<noteq> es"
proof -
  define a b c d where "a = each_task get_stock [StrArg ''a''] 0"
    and "b = each_task get_stock [StrArg ''b''] 0"
    and "c = each_task get_stock [StrArg ''c''] 0"
    and "d = each_task get_stock [StrArg ''d''] 0"
  have dist: "distinct [a, b, c, d]" by (simp add: a_def b_def c_def d_def each_task_def)
  show ?thesis
  proof (cases "\<exists>x \<in> {a, b, c, d}. \<exists>y \<in> {a, b, c, d}. x \<noteq> y \<and> lt x y")
    case True
    then obtain x y where xy: "x \<noteq> y" "lt x y" by blast
    then have "pop_all lt (push_all lt [(0, y), (0, x)] []) = [(0, x), (0, y)]"
      by (simp add: two_pushes pop_two)
    with xy show ?thesis
      by (intro exI[of _ "[(0, y), (0, x)]"]) auto
  next
    case False
    then have "pop_all lt (push_all lt [(0, a), (0, b), (0, c), (0, d)] []) = [(0, a), (0, c), (0, b), (0, d)]"
      by (intro four_unordered) blast
    with dist show ?thesis
      by (intro exI[of _ "[(0, a), (0, b), (0, c), (0, d)]"]) auto
  qed
qed
section \<open>Facts about the worker's steps\<close>

lemmas step_defs = do_task_iter_def emit_def log_def on_exception_def put_crawler_def
  put_writer_def add_total_def expand_list_def forward_stock_def

lemma put_stocks_eq:
  "put_stocks env ids s =
     s\<lparr>crawler := push_stocks (task_lt env) ids (crawler s), trace := trace s @ stock_puts ids\<rparr>"
proof (induction ids arbitrary: s)
  case Nil
  then show ?case by (simp add: put_stocks_def push_stocks_def stock_puts_def)
next
  case (Cons a ids)
  have "put_stocks env (a # ids) s = put_stocks env ids (put_crawler env 0 (each_task get_stock [StrArg a] 0) s)"
    by (simp add: put_stocks_def)
  then show ?case
    by (simp add: Cons put_crawler_def emit_def push_stocks_def stock_puts_def)
qed



lemma put_tasks_append: "put_tasks (xs @ ys) = put_tasks xs @ put_tasks ys"
  by (induction xs rule: put_tasks.induct) auto

lemma put_tasks_stock_puts:
  "put_tasks (stock_puts ids) = map (\<lambda>stk_id. each_task get_stock [StrArg stk_id] 0) ids"
  by (induction ids) (auto simp: stock_puts_def)

lemma expand_list_trace:
  "put_tasks (drop (length (trace s)) (trace (expand_list env t ids s))) =
     map (\<lambda>stk_id. each_task get_stock [StrArg stk_id] 0) ids @
     (case args t of IntArg page # _ \<Rightarrow> [each_task get_list [IntArg (page + 1)] 0] | _ \<Rightarrow> [])"
  by (simp add: expand_list_def put_stocks_eq add_total_def emit_def put_crawler_def Let_def
      on_exception_def log_def put_tasks_append put_tasks_stock_puts
      split: list.splits arg.splits)

lemma page0_pop:
  "heappop (task_lt tuple_env) (crawler page0) = Some ((1, each_task get_list [IntArg 0] 0), [])"
  by (simp add: page0_def heappop_single)


lemma calls_append: "calls (xs @ ys) = calls xs + calls ys"
  by (induction xs rule: calls.induct) auto

lemma retry_iter_single:
  assumes "crawler s = [(prior, t)]"
  shows "do_task_iter env max_retry s (Returned None) =
     (if tries t + 1 \<ge> max_retry
      then (Continue,
            s\<lparr>crawler := [],
              trace := trace s @ [Call (func t) (args t),
                                  Log ERROR (StopRetrying (func t) (args t) max_retry)]\<rparr>,
            Some (prior, t\<lparr>tries := tries t + 1\<rparr>))
      else (Continue,
            s\<lparr>crawler := [(prior + 2, t\<lparr>tries := tries t + 1\<rparr>)],
              trace := trace s @ [Call (func t) (args t),
                                  Log WARNING (ContinueRetrying (func t) (args t) (tries t + 1)),
                                  PutCrawler (prior + 2) (t\<lparr>tries := tries t + 1\<rparr>)]\<rparr>,
            Some (prior + 2, t\<lparr>tries := tries t + 1\<rparr>)))"
  using assms by (simp add: step_defs Let_def heappop_single heappush_empty)


lemma do_task_loop_empty: "crawler s = [] \<Longrightarrow> do_task_loop env max_retry s outs = Some (s, outs)"
  by (cases outs) (simp_all add: do_task_iter_def)

lemma retry_loop:
  assumes "int k = max 0 (max_retry - tries t - 1)" and "crawler s = [(prior, t)]"
  shows "\<exists>s'. do_task_loop env max_retry s
               (replicate (Suc k) (Returned None) @ outs) = Some (s', outs)
             \<and> crawler s' = [] \<and> writer s' = writer s
             \<and> pbar_total s' = pbar_total s \<and> pbar_n s' = pbar_n s
             \<and> calls (trace s') = calls (trace s) + Suc k
             \<and> put_tasks (trace s') = put_tasks (trace s) @ map (\<lambda>i. t\<lparr>tries := tries t + 1 + int i\<rparr>) [0..<k]
             \<and> last (trace s') = Log ERROR (StopRetrying (func t) (args t) max_retry)"
  using assms
proof (induction k arbitrary: s prior t)
  case 0
  then have "tries t + 1 \<ge> max_retry" by simp
  with 0 show ?case
    by (simp add: retry_iter_single do_task_loop_empty calls_append put_tasks_append)
next
  case (Suc k)
  then have lt: "\<not> tries t + 1 \<ge> max_retry" by simp
  let ?t = "t\<lparr>tries := tries t + 1\<rparr>"
  let ?s = "s\<lparr>crawler := [(prior + 2, ?t)],
              trace := trace s @ [Call (func t) (args t),
                                  Log WARNING (ContinueRetrying (func t) (args t) (tries t + 1)),
                                  PutCrawler (prior + 2) ?t]\<rparr>"
  have k: "int k = max 0 (max_retry - tries ?t - 1)" using Suc.prems(1) by simp
  have c: "crawler ?s = [(prior + 2, ?t)]" by simp
  from Suc.IH[OF k c] obtain s' where s':
    "do_task_loop env max_retry ?s (replicate (Suc k) (Returned None) @ outs) = Some (s', outs)"
    "crawler s' = []" "writer s' = writer ?s" "pbar_total s' = pbar_total ?s" "pbar_n s' = pbar_n ?s"
    "calls (trace s') = calls (trace ?s) + Suc k"
    "put_tasks (trace s') = put_tasks (trace ?s) @ map (\<lambda>i. ?t\<lparr>tries := tries ?t + 1 + int i\<rparr>) [0..<k]"
    "last (trace s') = Log ERROR (StopRetrying (func ?t) (args ?t) max_retry)"
    by blast
  have step: "do_task_loop env max_retry s (replicate (Suc (Suc k)) (Returned None) @ outs)
        = do_task_loop env max_retry ?s (replicate (Suc k) (Returned None) @ outs)"
    using lt Suc.prems(2) by (simp add: retry_iter_single)
  have m: "map (\<lambda>i. t\<lparr>tries := tries t + 1 + int i\<rparr>) [0..<Suc k]
        = ?t # map (\<lambda>i. ?t\<lparr>tries := tries ?t + 1 + int i\<rparr>) [0..<k]"
  proof -
    have "[0..<Suc k] = 0 # map Suc [0..<k]"
      by (simp add: upt_rec[of 0 "Suc k"] map_Suc_upt del: upt_Suc)
    then show ?thesis by (simp add: o_def add.commute add.left_commute del: upt_Suc)
  qed
  show ?case
    unfolding step using s' m by (simp add: calls_append put_tasks_append)
qed

section \<open>Accounting along a run\<close>

lemmas count_defs = lost_def dropped_stocks_def failed_stocks_def persist_failures_def
  writer_errors_def is_dropped_stock_def is_failed_stock_def is_persist_failure_def
  is_writer_error_def

lemma lost_append: "lost (xs @ ys) = lost xs + lost ys"
  by (simp add: lost_def dropped_stocks_def failed_stocks_def persist_failures_def writer_errors_def)

lemma stock_count_mset: "stock_count h = size (filter_mset (\<lambda>e. func (snd e) = get_stock) (mset h))"
  by (simp add: stock_count_def flip: mset_filter)

lemma stock_count_heappush:
  "stock_count (heappush lt h e) = stock_count h + (if func (snd e) = get_stock then 1 else 0)"
  by (simp add: stock_count_mset mset_heappush)

lemma stock_count_heappop:
  "heappop lt h = Some (x, h') \<Longrightarrow>
   stock_count h = stock_count h' + (if func (snd x) = get_stock then 1 else 0)"
  by (drule mset_heappop) (simp add: stock_count_mset)

lemma stock_count_push_stocks: "stock_count (push_stocks lt ids h) = stock_count h + length ids"
  unfolding push_stocks_def
  by (induction ids arbitrary: h) (simp_all add: stock_count_heappush each_task_def)

lemma filter_stock_puts [simp]:
  "filter is_dropped_stock (stock_puts ids) = []"
  "filter is_failed_stock (stock_puts ids) = []"
  "filter is_persist_failure (stock_puts ids) = []"
  "filter is_writer_error (stock_puts ids) = []"
  by (induction ids) (simp_all add: stock_puts_def count_defs)

lemma gap_emit: "gap (emit acts s) = gap s - int (lost acts)"
  by (simp add: gap_def emit_def lost_append)

lemma gap_on_exception:
  "gap (on_exception e t s) = gap s - (if func t = get_stock then 1 else 0) - (if e = AttributeError then 1 else 0)"
  by (cases e) (simp_all add: on_exception_def log_def gap_emit count_defs)

lemma gap_put_crawler:
  "gap (put_crawler env p t s) = gap s - (if func t = get_stock then 1 else 0)"
  by (simp add: put_crawler_def gap_def emit_def lost_append stock_count_heappush count_defs)

lemma gap_put_writer: "gap (put_writer v path s) = gap s - 1"
  by (simp add: put_writer_def gap_def emit_def lost_append count_defs)

lemma gap_put_stocks_add_total:
  "gap (put_stocks env ids (add_total (int (length ids)) s)) = gap s"
  by (simp add: put_stocks_eq add_total_def emit_def gap_def lost_append stock_count_push_stocks)
     (simp add: count_defs)

lemma gap_expand_list:
  "func t = get_list \<Longrightarrow> gap (expand_list env t ids s) = gap s"
  by (simp add: expand_list_def Let_def gap_on_exception gap_put_crawler each_task_def
        gap_put_stocks_add_total split: list.splits arg.splits)

lemma gap_forward_stock:
  "func t = get_stock \<Longrightarrow> gap (forward_stock env t v s) = gap s - 1"
  by (simp add: forward_stock_def gap_on_exception gap_put_writer
      split: list.splits arg.splits option.splits)

lemma func_cases: "func t = get_list \<or> func t = get_stock"
  by (cases "func t") auto

lemma do_task_iter_gap: "gap (fst (snd (do_task_iter env max_retry s out))) = gap s"
proof (cases "heappop (task_lt env) (crawler s)")
  case None
  then show ?thesis by (simp add: do_task_iter_def)
next
  case (Some p)
  obtain prior t q where p: "p = ((prior, t), q)" by (cases p) auto
  with Some have pop: "heappop (task_lt env) (crawler s) = Some ((prior, t), q)" by simp
  let ?s1 = "emit [Call (func t) (args t)] (s\<lparr>crawler := q\<rparr>)"
  have s1: "gap ?s1 = gap s + (if func t = get_stock then 1 else 0)"
    using stock_count_heappop[OF pop] by (simp add: gap_emit count_defs) (simp add: gap_def)
  show ?thesis
  proof (cases out)
    case Raised
    with pop s1 show ?thesis
      by (simp add: do_task_iter_def gap_on_exception)
  next
    case (Returned result)
    show ?thesis
    proof (cases result)
      case None
      have "gap (log lvl msg ?s1) = gap ?s1 - (if is_dropped_stock (Log lvl msg) then 1 else 0)"
        if "\<not> is_failed_stock (Log lvl msg)" "\<not> is_writer_error (Log lvl msg)" for lvl msg
        using that by (simp add: log_def gap_emit lost_def dropped_stocks_def failed_stocks_def
            persist_failures_def writer_errors_def is_persist_failure_def)
      note lg = this
      from None Returned pop s1 show ?thesis
        by (simp add: do_task_iter_def Let_def gap_put_crawler lg is_failed_stock_def is_writer_error_def
            is_dropped_stock_def)
    next
      case (Some v)
      from func_cases[of t] show ?thesis
      proof
        assume gl: "func t = get_list"
        with Some Returned pop s1 show ?thesis
          by (simp add: do_task_iter_def Let_def gap_expand_list gap_on_exception split: pyvalue.splits)
      next
        assume gs: "func t = get_stock"
        with Some Returned pop s1 show ?thesis
          by (simp add: do_task_iter_def Let_def gap_forward_stock)
      qed
    qed
  qed
qed

lemma write_result_iter_gap: "gap (snd (write_result_iter s w)) = gap s"
  by (simp add: write_result_iter_def Let_def log_def gap_emit split: list.splits pyvalue.splits write_outcome.splits)
     (auto simp: gap_def emit_def count_defs)

lemma gap_log_info:
  "gap (log INFO (CrawlerStarts i) s) = gap s"
  "gap (log INFO (CrawlerStopped i) s) = gap s"
  "gap (log INFO (WriterStarts i) s) = gap s"
  "gap (log INFO (WriterStopped i) s) = gap s"
  by (simp_all add: log_def gap_emit count_defs)

lemma step_gap:
  assumes "step env max_retry ev sys = Some sys'"
  shows "gap (shared sys') = gap (shared sys)"
proof (cases ev)
  case (Start i)
  with assms show ?thesis
    by (auto simp: step_def do_task_enter_def gap_log_info gap_emit count_defs split: if_splits)
       (simp add: gap_def)
next
  case (Iterate i out)
  obtain fl s' loc where it: "do_task_iter env max_retry (shared sys) out = (fl, s', loc)"
    by (cases "do_task_iter env max_retry (shared sys) out") auto
  with do_task_iter_gap[of env max_retry "shared sys" out] have g: "gap s' = gap (shared sys)" by simp
  have ex: "gap s'' = gap s'" if "do_task_exit i s' = Some s''" for s''
    using that by (auto simp: do_task_exit_def gap_log_info gap_emit count_defs split: list.splits)
       (simp add: gap_def)
  from assms Iterate it g ex show ?thesis
    by (cases fl) (auto simp: step_def split: if_splits option.splits)
next
  case StartWriter
  with assms show ?thesis by (auto simp: step_def gap_log_info split: if_splits)
next
  case (IterateWriter w)
  obtain fl s' where it: "write_result_iter (shared sys) w = (fl, s')"
    by (cases "write_result_iter (shared sys) w") auto
  with write_result_iter_gap[of "shared sys" w] have g: "gap s' = gap (shared sys)" by simp
  from assms IterateWriter it g show ?thesis
    by (cases fl) (auto simp: step_def gap_log_info split: if_splits)
qed

lemma run_gap: "run env max_retry evs sys = Some sys' \<Longrightarrow> gap (shared sys') = gap (shared sys)"
proof (induction evs arbitrary: sys)
  case Nil
  then show ?case by simp
next
  case (Cons ev evs)
  then obtain mid where m: "step env max_retry ev sys = Some mid" "run env max_retry evs mid = Some sys'"
    by (auto split: option.splits)
  from Cons.IH[OF m(2)] step_gap[OF m(1)] show ?case by simp
qed

lemma step_idle:
  assumes "step env max_retry ev sys = Some sys'" and "idle_inv (shared sys)"
  shows "idle_inv (shared sys')"
proof (cases ev)
  case (Start i)
  with assms show ?thesis
    by (auto simp: step_def do_task_enter_def idle_inv_def log_def emit_def calls_append
        put_tasks_append split: if_splits)
next
  case (Iterate i out)
  from assms(2) have "do_task_iter env max_retry (shared sys) out = (Break, shared sys, None)"
    by (simp add: do_task_iter_def idle_inv_def)
  with assms Iterate show ?thesis
    by (auto simp: step_def do_task_exit_def idle_inv_def log_def emit_def calls_append
        put_tasks_append split: if_splits list.splits option.splits)
next
  case StartWriter
  with assms show ?thesis
    by (auto simp: step_def idle_inv_def log_def emit_def calls_append put_tasks_append
        split: if_splits)
next
  case (IterateWriter w)
  from assms(2) have "snd (write_result_iter (shared sys) w) = shared sys"
    by (simp add: write_result_iter_def idle_inv_def)
  with assms IterateWriter show ?thesis
    by (cases "write_result_iter (shared sys) w"; cases "fst (write_result_iter (shared sys) w)")
       (auto simp: step_def idle_inv_def log_def emit_def calls_append put_tasks_append
        split: if_splits)
qed

lemma run_idle:
  "run env max_retry evs sys = Some sys' \<Longrightarrow> idle_inv (shared sys) \<Longrightarrow> idle_inv (shared sys')"
proof (induction evs arbitrary: sys)
  case Nil
  then show ?case by simp
next
  case (Cons ev evs)
  then obtain mid where m: "step env max_retry ev sys = Some mid" "run env max_retry evs mid = Some sys'"
    by (auto split: option.splits)
  from Cons.IH[OF m(2) step_idle[OF m(1) Cons.prems(2)]] show ?case .
qed

section \<open>More facts about the steps of a run\<close>

lemma heappop_last:
  assumes "heappop lt h = Some (x, [])"
  shows "h = [x]"
proof -
  from mset_heappop[OF assms] have "mset h = {#x#}" by simp
  then show ?thesis by (cases h) auto
qed

lemma retry_iter:
  assumes "heappop (task_lt env) (crawler s) = Some ((prior, t), q)"
  shows "do_task_iter env max_retry s (Returned None) =
     (if tries t + 1 \<ge> max_retry
      then (Continue,
            s\<lparr>crawler := q,
              trace := trace s @ [Call (func t) (args t),
                                  Log ERROR (StopRetrying (func t) (args t) max_retry)]\<rparr>,
            Some (prior, t\<lparr>tries := tries t + 1\<rparr>))
      else (Continue,
            s\<lparr>crawler := heappush (task_lt env) q (prior + 2, t\<lparr>tries := tries t + 1\<rparr>),
              trace := trace s @ [Call (func t) (args t),
                                  Log WARNING (ContinueRetrying (func t) (args t) (tries t + 1)),
                                  PutCrawler (prior + 2) (t\<lparr>tries := tries t + 1\<rparr>)]\<rparr>,
            Some (prior + 2, t\<lparr>tries := tries t + 1\<rparr>)))"
  using assms by (simp add: step_defs Let_def)

lemma put_crawler_heap_ok: "heap_ok (crawler s) \<Longrightarrow> heap_ok (crawler (put_crawler env p t s))"
  by (simp add: put_crawler_def emit_def heappush_heap_ok)

lemma push_stocks_eq_push_all:
  "push_stocks lt ids h = push_all lt (map (\<lambda>stk_id. (0, each_task get_stock [StrArg stk_id] 0)) ids) h"
  by (simp add: push_stocks_def push_all_def fold_map o_def)

lemma expand_list_heap_ok: "heap_ok (crawler s) \<Longrightarrow> heap_ok (crawler (expand_list env t ids s))"
  by (simp add: expand_list_def Let_def put_stocks_eq add_total_def emit_def put_crawler_def
      on_exception_def log_def heappush_heap_ok push_stocks_eq_push_all push_all_heap_ok
      split: list.splits arg.splits)

lemma forward_stock_crawler: "crawler (forward_stock env t v s) = crawler s"
  by (simp add: forward_stock_def on_exception_def log_def emit_def put_writer_def
      split: list.splits arg.splits option.splits)

lemma do_task_iter_heap_ok:
  assumes "heap_ok (crawler s)"
  shows "heap_ok (crawler (fst (snd (do_task_iter env max_retry s out))))"
proof (cases "heappop (task_lt env) (crawler s)")
  case None
  with assms show ?thesis by (simp add: do_task_iter_def)
next
  case (Some p)
  obtain prior t q where p: "p = ((prior, t), q)" by (cases p) auto
  with Some have pop: "heappop (task_lt env) (crawler s) = Some ((prior, t), q)" by simp
  from heappop_heap_ok[OF assms pop] have q: "heap_ok q" by simp
  let ?s1 = "emit [Call (func t) (args t)] (s\<lparr>crawler := q\<rparr>)"
  from q have s1: "heap_ok (crawler ?s1)" by (simp add: emit_def)
  from pop q s1 show ?thesis
    by (simp add: do_task_iter_def Let_def on_exception_def log_def put_crawler_heap_ok[unfolded put_crawler_def]
        expand_list_heap_ok forward_stock_crawler put_crawler_def heappush_heap_ok
        split: outcome.splits option.splits pyvalue.splits)
       (auto simp: emit_def heappush_heap_ok intro!: expand_list_heap_ok)
qed

lemma step_heap_ok:
  assumes "step env max_retry ev sys = Some sys'" and "heap_ok (crawler (shared sys))"
  shows "heap_ok (crawler (shared sys'))"
proof (cases ev)
  case (Start i)
  with assms show ?thesis
    by (auto simp: step_def do_task_enter_def log_def emit_def split: if_splits)
next
  case (Iterate i out)
  obtain fl s' loc where it: "do_task_iter env max_retry (shared sys) out = (fl, s', loc)"
    by (cases "do_task_iter env max_retry (shared sys) out") auto
  with do_task_iter_heap_ok[OF assms(2), of env max_retry out] have g: "heap_ok (crawler s')" by simp
  from assms Iterate it g show ?thesis
    by (cases fl) (auto simp: step_def do_task_exit_def log_def emit_def split: if_splits option.splits list.splits)
next
  case StartWriter
  with assms show ?thesis by (auto simp: step_def log_def emit_def split: if_splits)
next
  case (IterateWriter w)
  have "crawler (snd (write_result_iter (shared sys) w)) = crawler (shared sys)"
    by (simp add: write_result_iter_def Let_def log_def emit_def
        split: list.splits pyvalue.splits write_outcome.splits)
  with assms IterateWriter show ?thesis
    by (cases "write_result_iter (shared sys) w"; cases "fst (write_result_iter (shared sys) w)")
       (auto simp: step_def log_def emit_def split: if_splits)
qed

lemma run_heap_ok:
  "run env max_retry evs sys = Some sys' \<Longrightarrow> heap_ok (crawler (shared sys)) \<Longrightarrow>
   heap_ok (crawler (shared sys'))"
proof (induction evs arbitrary: sys)
  case Nil
  then show ?case by simp
next
  case (Cons ev evs)
  then obtain mid where m: "step env max_retry ev sys = Some mid" "run env max_retry evs mid = Some sys'"
    by (auto split: option.splits)
  from Cons.IH[OF m(2) step_heap_ok[OF m(1) Cons.prems(2)]] show ?case .
qed

lemma writer_done_step:
  assumes "step env max_retry ev sys = Some sys'" and "writer_st sys = Running"
  shows "writer_st sys' = Done \<longleftrightarrow>
           (\<exists>w. ev = IterateWriter w) \<and> writer (shared sys) = [] \<and> other (shared sys) = []"
proof (cases ev)
  case (IterateWriter w)
  have "fst (write_result_iter (shared sys) w) = Break \<longleftrightarrow> writer (shared sys) = [] \<and> other (shared sys) = []"
    by (auto simp: write_result_iter_def Let_def split: list.splits pyvalue.splits write_outcome.splits)
  with assms IterateWriter show ?thesis
    by (cases "write_result_iter (shared sys) w"; cases "fst (write_result_iter (shared sys) w)")
       (auto simp: step_def split: if_splits)
next
  case (Iterate i out)
  with assms show ?thesis
    by (auto simp: step_def split: if_splits prod.splits flow.splits option.splits)
qed (use assms in \<open>auto simp: step_def split: if_splits\<close>)

section \<open>The accesses of a pass\<close>

lemma fold_raise_ops: "fold (apply_op env) (raise_ops e t) s = on_exception e t s"
  by (simp add: raise_ops_def apply_op_def on_exception_def log_def)

lemma fold_put_stocks:
  "fold (apply_op env) (map (\<lambda>stk_id. PutC 0 (each_task get_stock [StrArg stk_id] 0)) ids) s
     = put_stocks env ids s"
  by (induction ids arbitrary: s) (simp_all add: put_stocks_def apply_op_def)

lemma crawl_ops_pass:
  assumes "heappop (task_lt env) (crawler s) = Some ((prior, t), q)"
  shows "fold (apply_op env) (crawl_ops env max_retry (save_fp s) prior t out) (s\<lparr>crawler := q\<rparr>)
           = fst (snd (do_task_iter env max_retry s out))"
  using assms
  by (simp add: do_task_iter_def crawl_ops_def Let_def fold_raise_ops fold_put_stocks expand_list_def
        forward_stock_def emit_def log_def apply_op_def
      split: outcome.splits option.splits pyvalue.splits list.splits arg.splits)

lemma writer_ops_pass:
  assumes "writer s = (v, fp) # rest"
  shows "fold (apply_op env) (writer_ops v fp w) (s\<lparr>writer := rest\<rparr>)
           = snd (write_result_iter s w)"
  using assms
  by (simp add: write_result_iter_def writer_ops_def Let_def apply_op_def log_def emit_def
      split: pyvalue.splits write_outcome.splits)

lemma gap_apply_op: "gap (apply_op env o1 s) = gap s + op_gap o1"
  by (cases o1)
     (simp_all add: apply_op_def op_gap_def gap_emit gap_put_crawler gap_put_writer add_total_def,
      simp_all add: gap_def count_defs)

lemma op_gap_raise_ops:
  "sum_list (map op_gap (raise_ops e t)) =
     - (if func t = get_stock then 1 else 0) - (if e = AttributeError then 1 else 0)"
  by (cases e) (simp_all add: raise_ops_def op_gap_def count_defs)

lemma op_gap_stock_puts:
  "sum_list (map (op_gap \<circ> (\<lambda>stk_id. PutC 0 (each_task get_stock [StrArg stk_id] 0))) ids)
     = - int (length ids)"
  by (induction ids) (simp_all add: op_gap_def each_task_def)

lemma op_gap_crawl_ops:
  "sum_list (map op_gap (crawl_ops env max_retry fp prior t out))
     = - (if func t = get_stock then 1 else 0)"
proof -
  have call: "op_gap (Emit [Call (func t) (args t)]) = 0"
    by (simp add: op_gap_def count_defs)
  from func_cases[of t] show ?thesis
  proof
    assume "func t = get_list"
    then show ?thesis
      by (simp add: crawl_ops_def Let_def call op_gap_raise_ops op_gap_stock_puts
          split: outcome.splits option.splits pyvalue.splits list.splits arg.splits)
         (simp add: op_gap_def count_defs each_task_def)
  next
    assume "func t = get_stock"
    then show ?thesis
      by (simp add: crawl_ops_def Let_def call op_gap_raise_ops
          split: outcome.splits option.splits pyvalue.splits list.splits arg.splits)
         (simp add: op_gap_def count_defs)
  qed
qed

lemma op_gap_writer_ops: "sum_list (map op_gap (writer_ops v fp w)) = - 1"
  by (simp add: writer_ops_def op_gap_def count_defs split: pyvalue.splits write_outcome.splits)

lemma sum_list_map_update:
  "i < length xs \<Longrightarrow>
   sum_list (map f (xs[i := y])) = sum_list (map f xs) - f (xs ! i) + (f y :: int)"
proof (induction xs arbitrary: i)
  case Nil
  then show ?case by simp
next
  case (Cons x xs)
  then show ?case by (cases i) simp_all
qed

lemma gap_pop:
  "heappop lt (crawler s) = Some (e, q) \<Longrightarrow>
   gap (s\<lparr>crawler := q\<rparr>) = gap s + (if func (snd e) = get_stock then 1 else 0)"
  by (drule stock_count_heappop) (simp add: gap_def)

lemma gap_do_task_enter: "gap (do_task_enter i s) = gap s"
  by (simp add: do_task_enter_def gap_log_info gap_emit count_defs) (simp add: gap_def)

lemma gap_do_task_exit: "do_task_exit i s = Some s' \<Longrightarrow> gap s' = gap s"
  by (auto simp: do_task_exit_def gap_log_info gap_emit count_defs split: list.splits)
     (simp add: gap_def)

lemma in_flight_crawler_update:
  "i < length (fcrawlers sys) \<Longrightarrow>
   in_flight (sys\<lparr>fcrawlers := (fcrawlers sys)[i := p]\<rparr>)
     = in_flight sys - crawler_in_flight (fcrawlers sys ! i) + crawler_in_flight p"
  by (simp add: in_flight_def sum_list_map_update)

lemma fine_step_gap:
  assumes st: "fine_step env max_retry ev sys = Some sys'"
      and inv: "gap (fshared sys) = in_flight sys"
  shows "gap (fshared sys') = in_flight sys'"
proof (cases ev)
  case (Enter i)
  with st have i: "i < length (fcrawlers sys)" "fcrawlers sys ! i = NotStarted"
    and sys': "sys' = sys\<lparr>fshared := do_task_enter i (fshared sys), fcrawlers := (fcrawlers sys)[i := Polling]\<rparr>"
    by (auto simp: fine_step_def split: if_splits)
  have "in_flight sys' = in_flight sys"
    using i by (simp add: sys' in_flight_def sum_list_map_update crawler_in_flight_def)
  with inv show ?thesis by (simp add: sys' gap_do_task_enter)
next
  case (Get i)
  with st have i: "i < length (fcrawlers sys)" "fcrawlers sys ! i = Polling"
    by (auto simp: fine_step_def split: if_splits)
  show ?thesis
  proof (cases "heappop (task_lt env) (crawler (fshared sys))")
    case None
    with st Get i obtain s' where ex: "do_task_exit i (fshared sys) = Some s'"
      and sys': "sys' = sys\<lparr>fshared := s', fcrawlers := (fcrawlers sys)[i := Finished]\<rparr>"
      by (auto simp: fine_step_def split: option.splits)
    have "in_flight sys' = in_flight sys"
      using i by (simp add: sys' in_flight_def sum_list_map_update crawler_in_flight_def)
    with inv gap_do_task_exit[OF ex] show ?thesis by (simp add: sys')
  next
    case (Some p)
    obtain e q where p: "p = (e, q)" by (cases p)
    with Some st Get i have sys': "sys' = sys\<lparr>fshared := (fshared sys)\<lparr>crawler := q\<rparr>,
                           fcrawlers := (fcrawlers sys)[i := Holding e]\<rparr>"
      by (auto simp: fine_step_def)
    have "in_flight sys' = in_flight sys + (if func (snd e) = get_stock then 1 else 0)"
      using i by (simp add: sys' in_flight_def sum_list_map_update crawler_in_flight_def)
    with inv gap_pop[of "task_lt env" "fshared sys" e q] Some p show ?thesis by (simp add: sys')
  qed
next
  case (CallFunc i out)
  with st obtain prior t where i: "i < length (fcrawlers sys)" "fcrawlers sys ! i = Holding (prior, t)"
    and sys': "sys' = sys\<lparr>fcrawlers := (fcrawlers sys)
                 [i := Applying (crawl_ops env max_retry (save_fp (fshared sys)) prior t out)]\<rparr>"
    by (auto simp: fine_step_def split: if_splits phase.splits)
  have "in_flight sys' = in_flight sys"
    using i by (simp add: sys' in_flight_def sum_list_map_update crawler_in_flight_def op_gap_crawl_ops)
  with inv show ?thesis by (simp add: sys')
next
  case (Apply i)
  with st obtain ops where i: "i < length (fcrawlers sys)" "fcrawlers sys ! i = Applying ops"
    by (auto simp: fine_step_def split: if_splits phase.splits)
  show ?thesis
  proof (cases ops)
    case Nil
    with st Apply i have sys': "sys' = sys\<lparr>fcrawlers := (fcrawlers sys)[i := Polling]\<rparr>"
      by (auto simp: fine_step_def)
    have "in_flight sys' = in_flight sys"
      using i Nil by (simp add: sys' in_flight_def sum_list_map_update crawler_in_flight_def)
    with inv show ?thesis by (simp add: sys')
  next
    case (Cons o1 rest)
    with st Apply i have sys': "sys' = sys\<lparr>fshared := apply_op env o1 (fshared sys),
                 fcrawlers := (fcrawlers sys)[i := (if rest = [] then Polling else Applying rest)]\<rparr>"
      by (auto simp: fine_step_def)
    have "in_flight sys' = in_flight sys + op_gap o1"
      using i Cons by (simp add: sys' in_flight_def sum_list_map_update crawler_in_flight_def)
    with inv show ?thesis by (simp add: sys' gap_apply_op)
  qed
next
  case EnterWriter
  with st have "fwriter sys = NotStarted"
    and sys': "sys' = sys\<lparr>fshared := log INFO (WriterStarts (length (fcrawlers sys))) (fshared sys),
                         fwriter := Polling\<rparr>"
    by (auto simp: fine_step_def split: if_splits)
  with inv show ?thesis by (simp add: gap_log_info in_flight_def writer_in_flight_def)
next
  case GetResult
  with st have w: "fwriter sys = Polling" by (auto simp: fine_step_def split: if_splits)
  show ?thesis
  proof (cases "writer (fshared sys)")
    case Nil
    with st GetResult w inv show ?thesis
      by (auto simp: fine_step_def gap_log_info in_flight_def writer_in_flight_def split: if_splits)
  next
    case (Cons item rest)
    with st GetResult w have sys': "sys' = sys\<lparr>fshared := (fshared sys)\<lparr>writer := rest\<rparr>, fwriter := Holding item\<rparr>"
      by (auto simp: fine_step_def)
    have "gap ((fshared sys)\<lparr>writer := rest\<rparr>) = gap (fshared sys) + 1"
      using Cons by (simp add: gap_def)
    with inv w show ?thesis by (simp add: sys' in_flight_def writer_in_flight_def)
  qed
next
  case (HandleResult w)
  with st obtain result fp where h: "fwriter sys = Holding (result, fp)"
    and sys': "sys' = sys\<lparr>fwriter := Applying (writer_ops result fp w)\<rparr>"
    by (auto simp: fine_step_def split: phase.splits)
  with inv show ?thesis by (simp add: in_flight_def writer_in_flight_def op_gap_writer_ops)
next
  case ApplyWriter
  with st obtain ops where a: "fwriter sys = Applying ops"
    by (auto simp: fine_step_def split: phase.splits)
  show ?thesis
  proof (cases ops)
    case Nil
    with st ApplyWriter a inv show ?thesis
      by (auto simp: fine_step_def in_flight_def writer_in_flight_def)
  next
    case (Cons o1 rest)
    with st ApplyWriter a have sys': "sys' = sys\<lparr>fshared := apply_op env o1 (fshared sys),
                         fwriter := (if rest = [] then Polling else Applying rest)\<rparr>"
      by (auto simp: fine_step_def)
    with inv a Cons show ?thesis by (simp add: gap_apply_op in_flight_def writer_in_flight_def)
  qed
qed

lemma fine_run_gap:
  "fine_run env max_retry evs sys = Some sys' \<Longrightarrow> gap (fshared sys) = in_flight sys \<Longrightarrow>
   gap (fshared sys') = in_flight sys'"
proof (induction evs arbitrary: sys)
  case Nil
  then show ?case by simp
next
  case (Cons ev evs)
  then obtain mid where m: "fine_step env max_retry ev sys = Some mid"
      "fine_run env max_retry evs mid = Some sys'"
    by (auto split: option.splits)
  from Cons.IH[OF m(2) fine_step_gap[OF m(1) Cons.prems(2)]] show ?case .
qed

lemma sum_list_all_zero: "(\<forall>x \<in> set xs. f x = 0) \<Longrightarrow> sum_list (map f xs) = (0::int)"
  by (induction xs) simp_all

lemma in_flight_start: "in_flight (fine_start n s) = 0"
proof -
  have "sum_list (map crawler_in_flight (replicate n NotStarted)) = 0"
    by (rule sum_list_all_zero) (simp add: crawler_in_flight_def)
  then show ?thesis
    by (simp add: in_flight_def fine_start_def writer_in_flight_def del: map_replicate)
qed

lemma in_flight_quiescent: "fine_quiescent sys \<Longrightarrow> in_flight sys = 0"
proof -
  assume q: "fine_quiescent sys"
  then have "\<forall>p \<in> set (fcrawlers sys). crawler_in_flight p = 0"
    by (auto simp: fine_quiescent_def list_all_iff crawler_in_flight_def)
  then have "sum_list (map crawler_in_flight (fcrawlers sys)) = 0"
    by (rule sum_list_all_zero)
  with q show ?thesis by (simp add: in_flight_def fine_quiescent_def writer_in_flight_def)
qed

text \<open>
  Two crawlers that have each taken a task leave both queues empty while a stock item is
  under way: the difference \<open>total - n\<close> is 1 and nothing is lost yet.
\<close>

lemma items_in_flight_not_counted:
  "fine_run tuple_env 3 two_pops_run (fine_start 2 page0) \<noteq> None
   \<and> crawler (fshared (the (fine_run tuple_env 3 two_pops_run (fine_start 2 page0)))) = []
   \<and> writer (fshared (the (fine_run tuple_env 3 two_pops_run (fine_start 2 page0)))) = []
   \<and> \<not> fine_quiescent (the (fine_run tuple_env 3 two_pops_run (fine_start 2 page0)))
   \<and> pbar_total (fshared (the (fine_run tuple_env 3 two_pops_run (fine_start 2 page0))))
       - pbar_n (fshared (the (fine_run tuple_env 3 two_pops_run (fine_start 2 page0)))) = 1
   \<and> lost (trace (fshared (the (fine_run tuple_env 3 two_pops_run (fine_start 2 page0))))) = 0"
  by code_simp

section \<open>A run of whole passes is a run of single accesses\<close>

lemma fine_run_append:
  "fine_run env max_retry (xs @ ys) sys =
     (case fine_run env max_retry xs sys of None \<Rightarrow> None | Some mid \<Rightarrow> fine_run env max_retry ys mid)"
  by (induction xs arbitrary: sys) (auto split: option.splits)

lemma apply_all_crawler:
  "i < length (fcrawlers sys) \<Longrightarrow> fcrawlers sys ! i = Applying ops \<Longrightarrow> ops \<noteq> [] \<Longrightarrow>
   fine_run env max_retry (replicate (length ops) (Apply i)) sys =
     Some (sys\<lparr>fshared := fold (apply_op env) ops (fshared sys),
               fcrawlers := (fcrawlers sys)[i := Polling]\<rparr>)"
proof (induction ops arbitrary: sys)
  case Nil
  then show ?case by simp
next
  case (Cons o1 ops)
  show ?case
  proof (cases "ops = []")
    case True
    with Cons.prems show ?thesis by (simp add: fine_step_def)
  next
    case False
    let ?mid = "sys\<lparr>fshared := apply_op env o1 (fshared sys), fcrawlers := (fcrawlers sys)[i := Applying ops]\<rparr>"
    have st: "fine_step env max_retry (Apply i) sys = Some ?mid"
      using Cons.prems False by (simp add: fine_step_def)
    have "fine_run env max_retry (replicate (length ops) (Apply i)) ?mid =
        Some (?mid\<lparr>fshared := fold (apply_op env) ops (fshared ?mid),
               fcrawlers := (fcrawlers ?mid)[i := Polling]\<rparr>)"
      using Cons.prems False by (intro Cons.IH) simp_all
    with st show ?thesis by simp
  qed
qed

lemma apply_all_writer:
  "fwriter sys = Applying ops \<Longrightarrow> ops \<noteq> [] \<Longrightarrow>
   fine_run env max_retry (replicate (length ops) ApplyWriter) sys =
     Some (sys\<lparr>fshared := fold (apply_op env) ops (fshared sys), fwriter := Polling\<rparr>)"
proof (induction ops arbitrary: sys)
  case Nil
  then show ?case by simp
next
  case (Cons o1 ops)
  show ?case
  proof (cases "ops = []")
    case True
    with Cons.prems show ?thesis by (simp add: fine_step_def)
  next
    case False
    let ?mid = "sys\<lparr>fshared := apply_op env o1 (fshared sys), fwriter := Applying ops\<rparr>"
    have st: "fine_step env max_retry ApplyWriter sys = Some ?mid"
      using Cons.prems False by (simp add: fine_step_def)
    have "fine_run env max_retry (replicate (length ops) ApplyWriter) ?mid =
        Some (?mid\<lparr>fshared := fold (apply_op env) ops (fshared ?mid), fwriter := Polling\<rparr>)"
      using False by (intro Cons.IH) simp_all
    with st show ?thesis by simp
  qed
qed

lemma crawl_ops_nonempty: "crawl_ops env max_retry fp prior t out \<noteq> []"
  by (simp add: crawl_ops_def)

lemma writer_ops_nonempty: "writer_ops v fp w \<noteq> []"
  by (simp add: writer_ops_def split: pyvalue.splits write_outcome.splits)

lemma do_task_iter_flow:
  "fst (do_task_iter env max_retry s out) = (if crawler s = [] then Break else Continue)"
  by (cases "heappop (task_lt env) (crawler s)")
     (auto simp: do_task_iter_def Let_def split: outcome.splits option.splits pyvalue.splits)

lemma do_task_iter_empty: "crawler s = [] \<Longrightarrow> do_task_iter env max_retry s out = (Break, s, None)"
  by (simp add: do_task_iter_def)

lemma refine_nth: "i < length (crawlers sys) \<Longrightarrow> fcrawlers (refine sys) ! i = refine_status (crawlers sys ! i)"
  by (simp add: refine_def)

lemma refine_simps [simp]:
  "fshared (refine sys) = shared sys"
  "length (fcrawlers (refine sys)) = length (crawlers sys)"
  "fwriter (refine sys) = refine_status (writer_st sys)"
  by (simp_all add: refine_def)

lemma refine_update:
  "refine (sys\<lparr>shared := s, crawlers := (crawlers sys)[i := st]\<rparr>)
     = (refine sys)\<lparr>fshared := s, fcrawlers := (fcrawlers (refine sys))[i := refine_status st]\<rparr>"
  by (simp add: refine_def map_update)

lemma refine_shared: "refine (sys\<lparr>shared := s\<rparr>) = (refine sys)\<lparr>fshared := s\<rparr>"
  by (simp add: refine_def)

lemma refine_writer:
  "refine (sys\<lparr>shared := s, writer_st := st\<rparr>) = (refine sys)\<lparr>fshared := s, fwriter := refine_status st\<rparr>"
  by (simp add: refine_def)

lemma step_refines:
  assumes "step env max_retry ev sys = Some sys'"
  shows "\<exists>fevs. fine_run env max_retry fevs (refine sys) = Some (refine sys')"
proof (cases ev)
  case (Start i)
  with assms have i: "i < length (crawlers sys)" "crawlers sys ! i = Idle"
    and sys': "sys' = sys\<lparr>shared := do_task_enter i (shared sys), crawlers := (crawlers sys)[i := Running]\<rparr>"
    by (auto simp: step_def split: if_splits)
  have "fine_run env max_retry [Enter i] (refine sys) = Some (refine sys')"
    using i by (simp add: fine_step_def refine_nth sys' refine_update) (simp add: refine_status_def)
  then show ?thesis ..
next
  case (Iterate i out)
  with assms have i: "i < length (crawlers sys)" "crawlers sys ! i = Running"
    by (auto simp: step_def split: if_splits)
  then have fi: "fcrawlers (refine sys) ! i = Polling" by (simp add: refine_nth refine_status_def)
  show ?thesis
  proof (cases "heappop (task_lt env) (crawler (shared sys))")
    case None
    then have it: "do_task_iter env max_retry (shared sys) out = (Break, shared sys, None)"
      by (simp add: do_task_iter_empty)
    with assms Iterate i obtain s'' where ex: "do_task_exit i (shared sys) = Some s''"
      and sys': "sys' = sys\<lparr>shared := s'', crawlers := (crawlers sys)[i := Done]\<rparr>"
      by (auto simp: step_def split: option.splits)
    have "fine_run env max_retry [Get i] (refine sys) = Some (refine sys')"
      using i fi None ex by (simp add: fine_step_def sys' refine_update) (simp add: refine_status_def)
    then show ?thesis ..
  next
    case (Some p)
    obtain prior t q where p: "p = ((prior, t), q)" by (cases p) auto
    with Some have pop: "heappop (task_lt env) (crawler (shared sys)) = Some ((prior, t), q)" by simp
    then have ne: "crawler (shared sys) \<noteq> []" by auto
    let ?ops = "crawl_ops env max_retry (save_fp (shared sys)) prior t out"
    let ?s' = "fold (apply_op env) ?ops ((shared sys)\<lparr>crawler := q\<rparr>)"
    obtain fl s1 loc where it: "do_task_iter env max_retry (shared sys) out = (fl, s1, loc)"
      by (cases "do_task_iter env max_retry (shared sys) out") auto
    with do_task_iter_flow[of env max_retry "shared sys" out] ne have fl: "fl = Continue" by simp
    from crawl_ops_pass[OF pop, of max_retry out] it have s1: "s1 = ?s'" by simp
    from assms Iterate i it fl s1 have sys': "sys' = sys\<lparr>shared := ?s'\<rparr>"
      by (auto simp: step_def)
    let ?h = "(refine sys)\<lparr>fshared := (shared sys)\<lparr>crawler := q\<rparr>,
                 fcrawlers := (fcrawlers (refine sys))[i := Holding (prior, t)]\<rparr>"
    let ?a = "?h\<lparr>fcrawlers := (fcrawlers ?h)[i := Applying ?ops]\<rparr>"
    have g: "fine_step env max_retry (Get i) (refine sys) = Some ?h"
      using i fi pop by (simp add: fine_step_def)
    have c: "fine_step env max_retry (CallFunc i out) ?h = Some ?a"
      using i by (simp add: fine_step_def)
    have a: "fine_run env max_retry (replicate (length ?ops) (Apply i)) ?a
          = Some (?a\<lparr>fshared := fold (apply_op env) ?ops (fshared ?a),
                      fcrawlers := (fcrawlers ?a)[i := Polling]\<rparr>)"
      using i by (intro apply_all_crawler) (simp_all add: crawl_ops_nonempty)
    have e: "?a\<lparr>fshared := fold (apply_op env) ?ops (fshared ?a),
                      fcrawlers := (fcrawlers ?a)[i := Polling]\<rparr> = refine sys'"
    proof -
      have m: "(map refine_status (crawlers sys))[i := Polling] = map refine_status (crawlers sys)"
        using i by (simp add: list_update_same_conv refine_status_def)
      show ?thesis by (simp add: sys' refine_def m)
    qed
    note a' = a[unfolded e]
    have "fine_run env max_retry (Get i # CallFunc i out # replicate (length ?ops) (Apply i)) (refine sys)
          = Some (refine sys')"
      by (simp only: fine_run.simps g c a' option.simps)
    then show ?thesis ..
  qed
next
  case StartWriter
  with assms have w: "writer_st sys = Idle"
    and sys': "sys' = sys\<lparr>shared := log INFO (WriterStarts (length (crawlers sys))) (shared sys),
                         writer_st := Running\<rparr>"
    by (auto simp: step_def split: if_splits)
  have "fine_run env max_retry [EnterWriter] (refine sys) = Some (refine sys')"
    using w by (simp add: fine_step_def sys' refine_writer) (simp add: refine_status_def)
  then show ?thesis ..
next
  case (IterateWriter w)
  with assms have r: "writer_st sys = Running" by (auto simp: step_def split: if_splits)
  then have fr: "fwriter (refine sys) = Polling" by (simp add: refine_status_def)
  show ?thesis
  proof (cases "writer (shared sys)")
    case Nil
    show ?thesis
    proof (cases "other (shared sys) = []")
      case True
      with Nil have "write_result_iter (shared sys) w = (Break, shared sys)"
        by (simp add: write_result_iter_def)
      with assms IterateWriter r have sys': "sys' = sys\<lparr>shared := log INFO (WriterStopped (length (crawlers sys))) (shared sys),
                           writer_st := Done\<rparr>"
        by (auto simp: step_def)
      have "fine_run env max_retry [GetResult] (refine sys) = Some (refine sys')"
        using fr Nil True by (simp add: fine_step_def sys' refine_writer) (simp add: refine_status_def)
      then show ?thesis ..
    next
      case False
      with Nil have "write_result_iter (shared sys) w = (Continue, shared sys)"
        by (simp add: write_result_iter_def)
      with assms IterateWriter r have sys': "sys' = sys" by (auto simp: step_def)
      have "fine_run env max_retry [] (refine sys) = Some (refine sys')" by (simp add: sys')
      then show ?thesis ..
    qed
  next
    case (Cons item rest)
    obtain v fp where item: "item = (v, fp)" by (cases item)
    let ?ops = "writer_ops v fp w"
    let ?s' = "fold (apply_op env) ?ops ((shared sys)\<lparr>writer := rest\<rparr>)"
    from Cons item have wr: "writer (shared sys) = (v, fp) # rest" by simp
    from writer_ops_pass[OF wr, of env w] have s': "snd (write_result_iter (shared sys) w) = ?s'" by simp
    have fl: "fst (write_result_iter (shared sys) w) = Continue"
      using wr by (simp add: write_result_iter_def Let_def split: pyvalue.splits write_outcome.splits)
    from assms IterateWriter r s' fl have sys': "sys' = sys\<lparr>shared := ?s'\<rparr>"
      by (cases "write_result_iter (shared sys) w") (auto simp: step_def)
    let ?h = "(refine sys)\<lparr>fshared := (shared sys)\<lparr>writer := rest\<rparr>, fwriter := Holding (v, fp)\<rparr>"
    let ?a = "?h\<lparr>fwriter := Applying ?ops\<rparr>"
    have g: "fine_step env max_retry GetResult (refine sys) = Some ?h"
      using fr wr by (simp add: fine_step_def)
    have c: "fine_step env max_retry (HandleResult w) ?h = Some ?a"
      by (simp add: fine_step_def)
    have a: "fine_run env max_retry (replicate (length ?ops) ApplyWriter) ?a
          = Some (?a\<lparr>fshared := fold (apply_op env) ?ops (fshared ?a), fwriter := Polling\<rparr>)"
      by (intro apply_all_writer) (simp_all add: writer_ops_nonempty)
    have e: "?a\<lparr>fshared := fold (apply_op env) ?ops (fshared ?a), fwriter := Polling\<rparr> = refine sys'"
      using r by (simp add: sys' refine_def refine_status_def)
    note a' = a[unfolded e]
    have "fine_run env max_retry (GetResult # HandleResult w # replicate (length ?ops) ApplyWriter) (refine sys)
          = Some (refine sys')"
      by (simp only: fine_run.simps g c a' option.simps)
    then show ?thesis ..
  qed
qed

lemma run_refines:
  "run env max_retry evs sys = Some sys' \<Longrightarrow>
   \<exists>fevs. fine_run env max_retry fevs (refine sys) = Some (refine sys')"
proof (induction evs arbitrary: sys)
  case Nil
  then have "fine_run env max_retry [] (refine sys) = Some (refine sys')" by simp
  then show ?case ..
next
  case (Cons ev evs)
  then obtain mid where m: "step env max_retry ev sys = Some mid" "run env max_retry evs mid = Some sys'"
    by (auto split: option.splits)
  from step_refines[OF m(1)] obtain f1 where f1: "fine_run env max_retry f1 (refine sys) = Some (refine mid)" ..
  from Cons.IH[OF m(2)] obtain f2 where f2: "fine_run env max_retry f2 (refine mid) = Some (refine sys')" ..
  from f1 f2 have "fine_run env max_retry (f1 @ f2) (refine sys) = Some (refine sys')"
    by (simp add: fine_run_append)
  then show ?case ..
qed

lemma refine_quiescent: "quiescent sys \<Longrightarrow> fine_quiescent (refine sys)"
  by (auto simp: quiescent_def all_done_def fine_quiescent_def refine_def list_all_iff refine_status_def)

lemma refine_start:
  "refine \<lparr>shared = s, crawlers = replicate n Idle, writer_st = Idle\<rparr> = fine_start n s"
  by (simp add: refine_def fine_start_def refine_status_def)
section \<open>The claims\<close>

text \<open>
  Claim C2. A \<open>get_list\<close> task for page \<open>page\<close> that returns a non-empty list \<open>ids\<close>: the
  bar's total grows by \<open>length ids\<close> between \<open>Acquire\<close> and \<open>Release\<close>, then one
  \<open>get_stock\<close> task per identifier is put at priority 0, in order, then one \<open>get_list\<close> task
  for \<open>page + 1\<close> at priority 1, and no other put happens.
\<close>

theorem fan_out:
  assumes "heappop (task_lt env) (crawler s) = Some ((prior, t), q)"
      and "func t = get_list" and "args t = IntArg page # rest" and "ids \<noteq> []"
  shows "do_task_iter env max_retry s (Returned (Some (Listing ids))) =
           (Continue,
            s\<lparr>crawler := heappush (task_lt env) (push_stocks (task_lt env) ids q)
                             (1, each_task get_list [IntArg (page + 1)] 0),
              pbar_total := pbar_total s + int (length ids),
              trace := trace s @ [Call get_list (args t), Acquire, TotalAdd (int (length ids)), Refresh, Release]
                         @ stock_puts ids @ [PutCrawler 1 (each_task get_list [IntArg (page + 1)] 0)]\<rparr>,
            Some (prior, t\<lparr>tries := tries t + 1\<rparr>))"
  using assms by (simp add: do_task_iter_def expand_list_def put_stocks_eq add_total_def emit_def put_crawler_def Let_def)

theorem fan_out_witness:
  "heappop (task_lt tuple_env) (crawler page0) = Some ((1, each_task get_list [IntArg 0] 0), [])
   \<and> func (each_task get_list [IntArg 0] 0) = get_list
   \<and> args (each_task get_list [IntArg 0] 0) = IntArg 0 # []
   \<and> [''1.600000'', ''0.000001''] \<noteq> []
   \<and> pbar_total (fst (snd (do_task_iter tuple_env 3 page0
         (Returned (Some (Listing [''1.600000'', ''0.000001'']))))))  = 2
   \<and> put_tasks (trace (fst (snd (do_task_iter tuple_env 3 page0
         (Returned (Some (Listing [''1.600000'', ''0.000001''])))))))
       = [each_task get_stock [StrArg ''1.600000''] 0, each_task get_stock [StrArg ''0.000001''] 0,
          each_task get_list [IntArg 1] 0]"
proof -
  have h1: "func (each_task get_list [IntArg 0] 0) = get_list"
    and h2: "args (each_task get_list [IntArg 0] 0) = IntArg 0 # []"
    and h3: "[''1.600000'', ''0.000001''] \<noteq> []" by (simp_all add: each_task_def)
  from fan_out[OF page0_pop h1 h2 h3, of 3] page0_pop h1 h2 h3 show ?thesis
    by (simp add: page0_def init_def stock_puts_def)
qed

text \<open>
  Claim C6. The writer on a frame taken from its queue: a frame without rows lowers the
  total by one under the lock and leaves \<open>n\<close>; a frame with rows raises \<open>n\<close> by one under
  the lock when \<open>write\<close> answers true, and changes neither counter when it answers false.
\<close>

theorem writer_counts:
  assumes "writer s = (Frame rows, fp) # rest"
  shows "(rows = [] \<longrightarrow>
            write_result_iter s w =
              (Continue, s\<lparr>writer := rest, pbar_total := pbar_total s - 1,
                           trace := trace s @ [Acquire, TotalSub 1, Refresh, Release]\<rparr>))
       \<and> (rows \<noteq> [] \<longrightarrow>
            write_result_iter s (Wrote True) =
              (Continue, s\<lparr>writer := rest, pbar_n := pbar_n s + 1,
                           trace := trace s @ [WriteCall (Frame rows) fp (Wrote True),
                                               Acquire, Update 1, Release]\<rparr>))
       \<and> (rows \<noteq> [] \<longrightarrow>
            write_result_iter s (Wrote False) =
              (Continue, s\<lparr>writer := rest,
                           trace := trace s @ [WriteCall (Frame rows) fp (Wrote False)]\<rparr>))"
  using assms by (simp add: write_result_iter_def emit_def Let_def)

theorem writer_counts_witness:
  "writer ((init ''%s.csv'')\<lparr>writer := [(Frame [], ''600000.csv'')], pbar_total := 2\<rparr>)
      = (Frame [], ''600000.csv'') # []
   \<and> pbar_total (snd (write_result_iter
        ((init ''%s.csv'')\<lparr>writer := [(Frame [], ''600000.csv'')], pbar_total := 2\<rparr>) (Wrote True))) = 1
   \<and> writer ((init ''%s.csv'')\<lparr>writer := [(Frame [[''2020-01-02'', ''3.1'']], ''600000.csv'')], pbar_total := 2\<rparr>)
      = (Frame [[''2020-01-02'', ''3.1'']], ''600000.csv'') # []
   \<and> pbar_n (snd (write_result_iter
        ((init ''%s.csv'')\<lparr>writer := [(Frame [[''2020-01-02'', ''3.1'']], ''600000.csv'')], pbar_total := 2\<rparr>) (Wrote True))) = 1
   \<and> pbar_n (snd (write_result_iter
        ((init ''%s.csv'')\<lparr>writer := [(Frame [[''2020-01-02'', ''3.1'']], ''600000.csv'')], pbar_total := 2\<rparr>) (Wrote False))) = 0"
proof -
  let ?a = "(init ''%s.csv'')\<lparr>writer := [(Frame [], ''600000.csv'')], pbar_total := 2\<rparr>"
  let ?b = "(init ''%s.csv'')\<lparr>writer := [(Frame [[''2020-01-02'', ''3.1'']], ''600000.csv'')], pbar_total := 2\<rparr>"
  have ha: "writer ?a = (Frame [], ''600000.csv'') # []" by simp
  have hb: "writer ?b = (Frame [[''2020-01-02'', ''3.1'']], ''600000.csv'') # []" by simp
  from writer_counts[OF ha, of "Wrote True"] writer_counts[OF hb] ha hb show ?thesis
    by (simp add: init_def)
qed

text \<open>
  Claim C7. An iteration of the writer leaves the loop exactly when its queue is empty (the
  pop timed out) and the registry \<open>queues.other\<close> is empty; with an empty queue and a
  non-empty registry it goes round again with the state unchanged; an exception while an
  item is handled (\<open>.empty\<close> on something that is not a frame, or \<open>write\<close> raising) is logged
  and the loop goes on. In a run of the whole program no other step takes a running writer
  to \<open>Done\<close>.
\<close>

theorem writer_stops_iff:
  "(fst (write_result_iter s w) = Break \<longleftrightarrow> writer s = [] \<and> other s = [])
   \<and> (writer s = [] \<and> other s \<noteq> [] \<longrightarrow> write_result_iter s w = (Continue, s))
   \<and> (writer s = (Listing xs, fp) # rest \<longrightarrow>
        write_result_iter s w =
          (Continue, s\<lparr>writer := rest, trace := trace s @ [Log ERROR (ExceptionInfo AttributeError)]\<rparr>))
   \<and> (writer s = (Frame rows, fp) # rest \<and> rows \<noteq> [] \<longrightarrow>
        write_result_iter s WriteRaised =
          (Continue, s\<lparr>writer := rest,
                       trace := trace s @ [WriteCall (Frame rows) fp WriteRaised,
                                           Log ERROR (ExceptionInfo WriteError)]\<rparr>))
   \<and> (step env max_retry ev sys = Some sys' \<and> writer_st sys = Running \<longrightarrow>
        (writer_st sys' = Done \<longleftrightarrow>
           (\<exists>w'. ev = IterateWriter w') \<and> writer (shared sys) = [] \<and> other (shared sys) = []))"
proof -
  have iter: "(fst (write_result_iter s w) = Break \<longleftrightarrow> writer s = [] \<and> other s = [])
   \<and> (writer s = [] \<and> other s \<noteq> [] \<longrightarrow> write_result_iter s w = (Continue, s))
   \<and> (writer s = (Listing xs, fp) # rest \<longrightarrow>
        write_result_iter s w =
          (Continue, s\<lparr>writer := rest, trace := trace s @ [Log ERROR (ExceptionInfo AttributeError)]\<rparr>))
   \<and> (writer s = (Frame rows, fp) # rest \<and> rows \<noteq> [] \<longrightarrow>
        write_result_iter s WriteRaised =
          (Continue, s\<lparr>writer := rest,
                       trace := trace s @ [WriteCall (Frame rows) fp WriteRaised,
                                           Log ERROR (ExceptionInfo WriteError)]\<rparr>))"
    by (auto simp: write_result_iter_def emit_def log_def Let_def
        split: list.splits pyvalue.splits write_outcome.splits)
  have "writer_st sys' = Done \<longleftrightarrow>
           (\<exists>w'. ev = IterateWriter w') \<and> writer (shared sys) = [] \<and> other (shared sys) = []"
    if "step env max_retry ev sys = Some sys'" "writer_st sys = Running"
    using that by (rule writer_done_step)
  with iter show ?thesis by blast
qed

theorem writer_stops_iff_witness:
  "fst (write_result_iter (init ''%s.csv'') (Wrote True)) = Break
   \<and> write_result_iter ((init ''%s.csv'')\<lparr>other := [7]\<rparr>) (Wrote True)
        = (Continue, (init ''%s.csv'')\<lparr>other := [7]\<rparr>)
   \<and> fst (write_result_iter ((init ''%s.csv'')\<lparr>writer := [(Listing [], ''x'')]\<rparr>) (Wrote True)) = Continue
   \<and> fst (write_result_iter ((init ''%s.csv'')\<lparr>writer := [(Frame [[''r'']], ''x'')]\<rparr>) WriteRaised) = Continue"
proof -
  have a: "writer (init ''%s.csv'') = [] \<and> other (init ''%s.csv'') = []" by (simp add: init_def)
  have b: "writer ((init ''%s.csv'')\<lparr>other := [7]\<rparr>) = [] \<and> other ((init ''%s.csv'')\<lparr>other := [7]\<rparr>) \<noteq> []"
    by (simp add: init_def)
  have c: "writer ((init ''%s.csv'')\<lparr>writer := [(Listing [], ''x'')]\<rparr>) = (Listing [], ''x'') # []" by simp
  have d: "writer ((init ''%s.csv'')\<lparr>writer := [(Frame [[''r'']], ''x'')]\<rparr>) = (Frame [[''r'']], ''x'') # [] \<and> [[''r'']] \<noteq> []" by simp
  from writer_stops_iff[of "init ''%s.csv''" "Wrote True"] a
  have 1: "fst (write_result_iter (init ''%s.csv'') (Wrote True)) = Break" by blast
  from writer_stops_iff[of "(init ''%s.csv'')\<lparr>other := [7]\<rparr>" "Wrote True"] b
  have 2: "write_result_iter ((init ''%s.csv'')\<lparr>other := [7]\<rparr>) (Wrote True)
        = (Continue, (init ''%s.csv'')\<lparr>other := [7]\<rparr>)" by blast
  from writer_stops_iff[of "(init ''%s.csv'')\<lparr>writer := [(Listing [], ''x'')]\<rparr>" "Wrote True" "[]" "''x''" "[]"] c
  have 3: "fst (write_result_iter ((init ''%s.csv'')\<lparr>writer := [(Listing [], ''x'')]\<rparr>) (Wrote True)) = Continue"
    by simp
  from writer_stops_iff[of "(init ''%s.csv'')\<lparr>writer := [(Frame [[''r'']], ''x'')]\<rparr>" _ _ _ "[]" "[[''r'']]"] d
  have 4: "fst (write_result_iter ((init ''%s.csv'')\<lparr>writer := [(Frame [[''r'']], ''x'')]\<rparr>) WriteRaised) = Continue"
    by simp
  from 1 2 3 4 show ?thesis by blast
qed

text \<open>
  Claim C8. When the bound function raises, the iteration ends in the handler: the exception
  and then the function name with the arguments are logged at error severity, the loop goes
  on, the queue is what the pop left (nothing is put back), and the worker's \<open>task\<close> is the
  popped task with its \<open>tries\<close> untouched.
\<close>

theorem raising_call_logged_not_retried:
  assumes "heappop (task_lt env) (crawler s) = Some ((prior, t), q)"
  shows "do_task_iter env max_retry s Raised =
           (Continue,
            s\<lparr>crawler := q,
              trace := trace s @ [Call (func t) (args t), Log ERROR (ExceptionInfo FuncRaised),
                                  Log ERROR (TaskFailed (func t) (args t))]\<rparr>,
            Some (prior, t))"
  using assms by (simp add: step_defs)

theorem raising_call_logged_not_retried_witness:
  "heappop (task_lt tuple_env) (crawler ((init ''%s.csv'')\<lparr>crawler := [(0, each_task get_stock [StrArg ''1.600000''] 2)]\<rparr>))
     = Some ((0, each_task get_stock [StrArg ''1.600000''] 2), [])
   \<and> do_task_iter tuple_env 3 ((init ''%s.csv'')\<lparr>crawler := [(0, each_task get_stock [StrArg ''1.600000''] 2)]\<rparr>) Raised =
           (Continue,
            (init ''%s.csv'')\<lparr>crawler := [],
              trace := [Call get_stock [StrArg ''1.600000''], Log ERROR (ExceptionInfo FuncRaised),
                                  Log ERROR (TaskFailed get_stock [StrArg ''1.600000''])]\<rparr>,
            Some (0, each_task get_stock [StrArg ''1.600000''] 2))"
proof -
  let ?s = "(init ''%s.csv'')\<lparr>crawler := [(0, each_task get_stock [StrArg ''1.600000''] 2)]\<rparr>"
  have h: "heappop (task_lt tuple_env) (crawler ?s) = Some ((0, each_task get_stock [StrArg ''1.600000''] 2), [])"
    by (simp add: heappop_single)
  from raising_call_logged_not_retried[OF h, of 3] h show ?thesis
    by (simp add: init_def each_task_def)
qed

text \<open>
  Claim C9. A task that is put back by the retry policy is the popped task with \<open>tries\<close>
  one higher, at a priority two higher; its function and its arguments are those of the
  popped task, and nothing else changes in the state but the queue and the trace.
\<close>

theorem requeue_keeps_func_and_args:
  assumes "heappop (task_lt env) (crawler s) = Some ((prior, t), q)"
      and "tries t + 1 < max_retry"
  shows "do_task_iter env max_retry s (Returned None) =
           (Continue,
            s\<lparr>crawler := heappush (task_lt env) q (prior + 2, t\<lparr>tries := tries t + 1\<rparr>),
              trace := trace s @ [Call (func t) (args t),
                                  Log WARNING (ContinueRetrying (func t) (args t) (tries t + 1)),
                                  PutCrawler (prior + 2) (t\<lparr>tries := tries t + 1\<rparr>)]\<rparr>,
            Some (prior + 2, t\<lparr>tries := tries t + 1\<rparr>))
         \<and> func (t\<lparr>tries := tries t + 1\<rparr>) = func t
         \<and> args (t\<lparr>tries := tries t + 1\<rparr>) = args t"
  using assms by (simp add: step_defs Let_def)

theorem requeue_keeps_func_and_args_witness:
  "heappop (task_lt tuple_env) (crawler page0) = Some ((1, each_task get_list [IntArg 0] 0), [])
   \<and> tries (each_task get_list [IntArg 0] 0) + 1 < 3
   \<and> crawler (fst (snd (do_task_iter tuple_env 3 page0 (Returned None))))
        = [(3, each_task get_list [IntArg 0] 1)]"
proof -
  have h: "tries (each_task get_list [IntArg 0] 0) + 1 < 3" by (simp add: each_task_def)
  from requeue_keeps_func_and_args[OF page0_pop h] page0_pop h show ?thesis
    by (simp add: heappush_empty each_task_def)
qed

text \<open>
  Claim C10. Every task that an iteration on a \<open>get_list\<close> result puts on the queue has
  \<open>tries = 0\<close>, whatever the \<open>tries\<close> of the task that was executed.
\<close>

theorem fan_out_tasks_start_fresh:
  assumes "heappop (task_lt env) (crawler s) = Some ((prior, t), q)"
      and "func t = get_list"
  shows "list_all (\<lambda>t'. tries t' = 0)
           (put_tasks (drop (length (trace s))
              (trace (fst (snd (do_task_iter env max_retry s (Returned (Some (Listing ids)))))))))"
proof (cases "ids = []")
  case True
  with assms show ?thesis by (simp add: do_task_iter_def emit_def)
next
  case False
  let ?s1 = "emit [Call (func t) (args t)] (s\<lparr>crawler := q\<rparr>)"
  have "put_tasks (drop (length (trace s)) (trace (expand_list env (t\<lparr>tries := tries t + 1\<rparr>) ids ?s1)))
        = put_tasks (drop (length (trace ?s1)) (trace (expand_list env (t\<lparr>tries := tries t + 1\<rparr>) ids ?s1)))"
    by (simp add: expand_list_def put_stocks_eq add_total_def emit_def put_crawler_def Let_def
      on_exception_def log_def put_tasks_append split: list.splits arg.splits)
  with False assms show ?thesis
    by (simp add: do_task_iter_def Let_def expand_list_trace list_all_iff each_task_def
        split: list.splits arg.splits)
qed

theorem fan_out_tasks_start_fresh_witness:
  "heappop (task_lt tuple_env) (crawler (page0\<lparr>crawler := [(5, each_task get_list [IntArg 7] 2)]\<rparr>))
      = Some ((5, each_task get_list [IntArg 7] 2), [])
   \<and> func (each_task get_list [IntArg 7] 2) = get_list
   \<and> list_all (\<lambda>t'. tries t' = 0)
        (put_tasks (drop (length (trace (page0\<lparr>crawler := [(5, each_task get_list [IntArg 7] 2)]\<rparr>)))
           (trace (fst (snd (do_task_iter tuple_env 3 (page0\<lparr>crawler := [(5, each_task get_list [IntArg 7] 2)]\<rparr>)
              (Returned (Some (Listing [''1.600000''])))))))))"
proof -
  have h0: "heappop (task_lt tuple_env) (crawler (page0\<lparr>crawler := [(5, each_task get_list [IntArg 7] 2)]\<rparr>))
      = Some ((5, each_task get_list [IntArg 7] 2), [])" by (simp add: heappop_single)
  have h1: "func (each_task get_list [IntArg 7] 2) = get_list" by (simp add: each_task_def)
  from fan_out_tasks_start_fresh[OF h0 h1, of 3 "[''1.600000'']"] h0 h1 show ?thesis by blast
qed


text \<open>
  Claim C1, amended. Each call that returns \<open>None\<close> raises \<open>tries\<close> by one; the task is
  dropped (error log, no put) when the new \<open>tries\<close> reaches \<open>max_retry\<close> and put back at a
  priority two higher otherwise, whatever else the queue holds. A task alone in the queue
  (\<open>q = []\<close> after the pop) whose function returns \<open>None\<close> every time is called exactly
  \<open>max 1 (max_retry - tries)\<close> times, that is \<open>max_retry\<close> times for a fresh task when
  \<open>max_retry\<close> is at least 1 and once otherwise: the loop uses that many outcomes, puts
  the task back after each call but the last, logs the drop at error severity and ends
  with an empty crawler queue and an untouched writer queue.
\<close>

theorem retry_exhaustion:
  assumes "heappop (task_lt env) (crawler s) = Some ((prior, t), q)"
  shows "do_task_iter env max_retry s (Returned None) =
           (if tries t + 1 \<ge> max_retry
            then (Continue,
                  s\<lparr>crawler := q,
                    trace := trace s @ [Call (func t) (args t),
                                        Log ERROR (StopRetrying (func t) (args t) max_retry)]\<rparr>,
                  Some (prior, t\<lparr>tries := tries t + 1\<rparr>))
            else (Continue,
                  s\<lparr>crawler := heappush (task_lt env) q (prior + 2, t\<lparr>tries := tries t + 1\<rparr>),
                    trace := trace s @ [Call (func t) (args t),
                                        Log WARNING (ContinueRetrying (func t) (args t) (tries t + 1)),
                                        PutCrawler (prior + 2) (t\<lparr>tries := tries t + 1\<rparr>)]\<rparr>,
                  Some (prior + 2, t\<lparr>tries := tries t + 1\<rparr>)))
       \<and> (q = [] \<longrightarrow>
            (\<exists>s'. do_task_loop env max_retry s
                 (replicate (nat (max 1 (max_retry - tries t))) (Returned None) @ outs) = Some (s', outs)
             \<and> crawler s' = [] \<and> writer s' = writer s
             \<and> calls (trace s') = calls (trace s) + nat (max 1 (max_retry - tries t))
             \<and> length (put_tasks (trace s')) = length (put_tasks (trace s)) + (nat (max 1 (max_retry - tries t)) - 1)
             \<and> last (trace s') = Log ERROR (StopRetrying (func t) (args t) max_retry)))"
proof -
  define k where "k = nat (max 0 (max_retry - tries t - 1))"
  have k: "int k = max 0 (max_retry - tries t - 1)" by (simp add: k_def)
  have n: "nat (max 1 (max_retry - tries t)) = Suc k" unfolding k_def by linarith
  have "\<exists>s'. do_task_loop env max_retry s (replicate (Suc k) (Returned None) @ outs) = Some (s', outs)
             \<and> crawler s' = [] \<and> writer s' = writer s
             \<and> calls (trace s') = calls (trace s) + Suc k
             \<and> length (put_tasks (trace s')) = length (put_tasks (trace s)) + (Suc k - 1)
             \<and> last (trace s') = Log ERROR (StopRetrying (func t) (args t) max_retry)"
    if "q = []"
  proof -
    from that assms have c: "crawler s = [(prior, t)]" by (simp add: heappop_last)
    from retry_loop[OF k c, of env outs] show ?thesis by auto
  qed
  with retry_iter[OF assms] show ?thesis unfolding n by blast
qed

theorem retry_exhaustion_witness:
  "heappop (task_lt tuple_env) (crawler page0) = Some ((1, each_task get_list [IntArg 0] 0), [])
   \<and> (\<exists>s'. do_task_loop tuple_env 3 page0 (replicate 3 (Returned None) @ [Raised]) = Some (s', [Raised])
          \<and> crawler s' = [] \<and> calls (trace s') = 3 \<and> length (put_tasks (trace s')) = 2)"
proof -
  have n: "nat (max 1 (3 - tries (each_task get_list [IntArg 0] 0))) = 3" by (simp add: each_task_def)
  have t: "trace page0 = []" by (simp add: page0_def init_def)
  from retry_exhaustion[OF page0_pop, of 3 "[Raised]"] page0_pop show ?thesis
    unfolding n by (auto simp: t)
qed

text \<open>
  With \<open>max_retry = 0\<close> the task is still called once (the test follows the call), so the
  number of calls is not \<open>max_retry\<close>.
\<close>

theorem retry_exhaustion_counterexample:
  "do_task_loop tuple_env 0 page0 [Returned None] =
     Some (page0\<lparr>crawler := [],
                 trace := [Call get_list [IntArg 0], Log ERROR (StopRetrying get_list [IntArg 0] 0)]\<rparr>, [])
   \<and> calls [Call get_list [IntArg 0], Log ERROR (StopRetrying get_list [IntArg 0] 0)] \<noteq> nat 0"
  by (simp add: page0_def init_def each_task_def retry_iter_single)

text \<open>
  Claim C4, amended. The crawler queue is a binary heap on the entries \<open>[prior, task]\<close>.
  Puts and gets keep the heap condition and the multiset of entries; a get returns an entry
  whose priority is smallest among all entries in the queue, so of two queued tasks the
  one with the smaller priority is popped first, and emptying the queue gives the
  priorities in ascending order. The queue starts empty and every step of a run keeps the
  heap condition (\<open>run_heap_ok\<close>). Nothing is said about entries of equal priority: their
  order is decided by the comparison of the task objects.
\<close>

theorem pops_by_priority:
  assumes "heap_ok h"
  shows "heap_ok (heappush lt h e) \<and> mset (heappush lt h e) = add_mset e (mset h)
       \<and> (\<forall>x h'. heappop lt h = Some (x, h') \<longrightarrow>
             heap_ok h' \<and> mset h = add_mset x (mset h') \<and> (\<forall>e' \<in> set h. fst x \<le> fst e'))
       \<and> sorted (map fst (pop_all lt h)) \<and> mset (pop_all lt h) = mset h"
proof -
  have "heap_ok h' \<and> mset h = add_mset x (mset h') \<and> (\<forall>e' \<in> set h. fst x \<le> fst e')"
    if "heappop lt h = Some (x, h')" for x h'
    using heappop_heap_ok[OF assms that] mset_heappop[OF that] by simp
  then show ?thesis
    using assms by (simp add: heappush_heap_ok mset_heappush pop_all_def sorted_pop_n mset_pop_n)
qed

theorem pops_by_priority_witness:
  "heap_ok (push_all tuple_lt [(1, each_task get_list [IntArg 1] 0),
                               (0, each_task get_stock [StrArg ''1.600000''] 0)] [])
   \<and> sorted (map fst (pop_all tuple_lt
         (push_all tuple_lt [(1, each_task get_list [IntArg 1] 0),
                             (0, each_task get_stock [StrArg ''1.600000''] 0)] [])))
   \<and> pop_all tuple_lt
         (push_all tuple_lt [(1, each_task get_list [IntArg 1] 0),
                             (0, each_task get_stock [StrArg ''1.600000''] 0)] [])
       = [(0, each_task get_stock [StrArg ''1.600000''] 0), (1, each_task get_list [IntArg 1] 0)]"
proof -
  let ?h = "push_all tuple_lt [(1, each_task get_list [IntArg 1] 0),
                               (0, each_task get_stock [StrArg ''1.600000''] 0)] []"
  have ok: "heap_ok ?h" by code_simp
  have ev: "pop_all tuple_lt ?h
       = [(0, each_task get_stock [StrArg ''1.600000''] 0), (1, each_task get_list [IntArg 1] 0)]"
    by code_simp
  from pops_by_priority[OF ok, of tuple_lt] ok ev show ?thesis by blast
qed

text \<open>
  Two stock tasks put at priority 0, as the fan-out does for the page
  \<open>[''1.600000'', ''0.000001'']\<close>, come out in the order of their arguments, the second put
  first: equal priorities are not served in insertion order.
\<close>

theorem fifo_counterexample:
  "pop_all tuple_lt
     (push_all tuple_lt [(0, each_task get_stock [StrArg ''1.600000''] 0),
                         (0, each_task get_stock [StrArg ''0.000001''] 0)] [])
   = [(0, each_task get_stock [StrArg ''0.000001''] 0),
      (0, each_task get_stock [StrArg ''1.600000''] 0)]"
  by code_simp

text \<open>
  Claim C3, amended. Take a crawler whose queue was seeded with list tasks only and whose
  bar is at 0 of 0, and let any number of crawler workers and the writer run, their
  accesses to the queues and to the bar interleaved in any order. At quiescence, when the
  queues are empty and every worker has returned, \<open>n \<le> total\<close>, and \<open>total - n\<close> is the
  number of persistence failures plus the number of stock tasks dropped after the last
  retry plus the number of stock items lost to an exception (in the crawler's iteration
  or in the writer's). Results without rows are not part of the difference: each of them
  has already lowered \<open>total\<close>.
\<close>

theorem accounting_at_quiescence:
  assumes "sys0 = fine_start n ((init fp)\<lparr>crawler := h0\<rparr>)" and "stock_count h0 = 0"
      and "fine_run env max_retry evs sys0 = Some sys"
      and "fine_quiescent sys"
  shows "pbar_n (fshared sys) \<le> pbar_total (fshared sys)
       \<and> pbar_total (fshared sys) - pbar_n (fshared sys)
           = int (persist_failures (trace (fshared sys)) + dropped_stocks (trace (fshared sys))
                  + failed_stocks (trace (fshared sys)) + writer_errors (trace (fshared sys)))"
proof -
  have "gap (fshared sys0) = in_flight sys0"
    using assms(1,2) by (simp add: in_flight_start) (simp add: fine_start_def gap_def init_def count_defs)
  from fine_run_gap[OF assms(3) this] in_flight_quiescent[OF assms(4)]
  have "gap (fshared sys) = 0" by simp
  with assms(4) show ?thesis
    by (simp add: gap_def lost_def stock_count_def fine_quiescent_def)
qed

theorem accounting_at_quiescence_witness:
  "fine_start 1 page0 = fine_start 1 ((init ''%s.csv'')\<lparr>crawler := [(1, each_task get_list [IntArg 0] 0)]\<rparr>)
   \<and> stock_count [(1, each_task get_list [IntArg 0] 0)] = 0
   \<and> fine_run tuple_env 3 fine_write_failure_run (fine_start 1 page0)
        = Some (the (fine_run tuple_env 3 fine_write_failure_run (fine_start 1 page0)))
   \<and> fine_quiescent (the (fine_run tuple_env 3 fine_write_failure_run (fine_start 1 page0)))
   \<and> pbar_total (fshared (the (fine_run tuple_env 3 fine_write_failure_run (fine_start 1 page0)))) = 2
   \<and> pbar_n (fshared (the (fine_run tuple_env 3 fine_write_failure_run (fine_start 1 page0)))) = 1
   \<and> pbar_total (fshared (the (fine_run tuple_env 3 fine_write_failure_run (fine_start 1 page0))))
       - pbar_n (fshared (the (fine_run tuple_env 3 fine_write_failure_run (fine_start 1 page0))))
      = int (persist_failures (trace (fshared (the (fine_run tuple_env 3 fine_write_failure_run (fine_start 1 page0)))))
           + dropped_stocks (trace (fshared (the (fine_run tuple_env 3 fine_write_failure_run (fine_start 1 page0)))))
           + failed_stocks (trace (fshared (the (fine_run tuple_env 3 fine_write_failure_run (fine_start 1 page0)))))
           + writer_errors (trace (fshared (the (fine_run tuple_env 3 fine_write_failure_run (fine_start 1 page0))))))"
proof -
  let ?sys = "the (fine_run tuple_env 3 fine_write_failure_run (fine_start 1 page0))"
  have h1: "fine_start 1 page0
      = fine_start 1 ((init ''%s.csv'')\<lparr>crawler := [(1, each_task get_list [IntArg 0] 0)]\<rparr>)"
    by (simp add: page0_def)
  have h2: "stock_count [(1, each_task get_list [IntArg 0] 0)] = 0" by code_simp
  have "fine_run tuple_env 3 fine_write_failure_run (fine_start 1 page0) \<noteq> None" by code_simp
  then have h3: "fine_run tuple_env 3 fine_write_failure_run (fine_start 1 page0) = Some ?sys" by simp
  have h4: "fine_quiescent ?sys" by code_simp
  have t: "pbar_total (fshared ?sys) = 2" by code_simp
  have n: "pbar_n (fshared ?sys) = 1" by code_simp
  from accounting_at_quiescence[OF h1 h2 h3 h4] h1 h2 h3 h4 t n show ?thesis by blast
qed

text \<open>
  Two runs to quiescence, pass after pass (by \<open>run_refines\<close> such a run is also a run of
  single accesses). In the first the only stock task yields a frame without rows:
  \<open>total - n\<close> is 0 while the sum of the specification is 1. In the second the stock
  task's function raises: \<open>total - n\<close> is 1 while that sum is 0.
\<close>

theorem accounting_counterexample:
  "run tuple_env 3 empty_result_run page0_system \<noteq> None
   \<and> quiescent (the (run tuple_env 3 empty_result_run page0_system))
   \<and> pbar_total (shared (the (run tuple_env 3 empty_result_run page0_system)))
       - pbar_n (shared (the (run tuple_env 3 empty_result_run page0_system))) = 0
   \<and> claimed_gap (trace (shared (the (run tuple_env 3 empty_result_run page0_system)))) = 1
   \<and> run tuple_env 3 raising_stock_run page0_system \<noteq> None
   \<and> quiescent (the (run tuple_env 3 raising_stock_run page0_system))
   \<and> pbar_total (shared (the (run tuple_env 3 raising_stock_run page0_system)))
       - pbar_n (shared (the (run tuple_env 3 raising_stock_run page0_system))) = 1
   \<and> claimed_gap (trace (shared (the (run tuple_env 3 raising_stock_run page0_system)))) = 0"
  by code_simp

text \<open>
  Claim C5. The constructor leaves the crawler queue empty and \<open>assign_tasks\<close> puts nothing
  on it before it starts the workers, so no list task for page 0 is ever there: whatever
  the schedule, number of crawlers and retry limit, a completed \<open>assign_tasks\<close> on a new
  crawler has called no bound function and put no task, and its report is 0 of 0. The
  rest of the claim holds: \<open>num_crawler\<close> crawler workers and one writer are started, all
  are waited for, and the counts are logged last.
\<close>

theorem unseeded_crawler_retrieves_nothing:
  assumes "assign_tasks env num_crawler max_retry evs (init fp) = Some (Inr final)"
  shows "crawler final = [] \<and> writer final = [] \<and> calls (trace final) = 0
       \<and> put_tasks (trace final) = [] \<and> pbar_total final = 0 \<and> pbar_n final = 0
       \<and> drop (length (trace final) - 2) (trace final) = [Log INFO (Retrieved 0 0), Close]"
proof -
  from assms obtain sys sys' where
    st: "assign_tasks_start num_crawler (init fp) = Inr sys"
    and rn: "run env max_retry evs sys = Some sys'"
    and fin: "final = emit [Close] (log INFO (Retrieved (pbar_n (shared sys')) (pbar_total (shared sys'))) (shared sys'))"
    by (auto simp: assign_tasks_def split: sum.splits option.splits if_splits)
  from st have "idle_inv (shared sys)"
    by (auto simp: assign_tasks_start_def Let_def idle_inv_def init_def log_def emit_def split: if_splits)
  from run_idle[OF rn this] show ?thesis
    by (simp add: fin idle_inv_def log_def emit_def calls_append put_tasks_append)
qed

theorem unseeded_crawler_retrieves_nothing_witness:
  "assign_tasks tuple_env 1 3 [Start 0, StartWriter, Iterate 0 Raised, IterateWriter (Wrote True)]
       (init ''%s.csv'')
     = Some (Inr \<lparr>crawler = [], writer = [], other = [], pbar_total = 0, pbar_n = 0,
                  save_fp = ''%s.csv'',
                  trace = [Log INFO (PoolStarts 2), PutOther 0, Log INFO (CrawlerStarts 0),
                           Log INFO (WriterStarts 1), GetOther, Log INFO (CrawlerStopped 0),
                           Log INFO (WriterStopped 1), Log INFO (Retrieved 0 0), Close]\<rparr>)
   \<and> calls [Log INFO (PoolStarts 2), PutOther 0, Log INFO (CrawlerStarts 0),
             Log INFO (WriterStarts 1), GetOther, Log INFO (CrawlerStopped 0),
             Log INFO (WriterStopped 1), Log INFO (Retrieved 0 0), Close] = 0"
proof -
  have h: "assign_tasks tuple_env 1 3 [Start 0, StartWriter, Iterate 0 Raised, IterateWriter (Wrote True)]
       (init ''%s.csv'')
     = Some (Inr \<lparr>crawler = [], writer = [], other = [], pbar_total = 0, pbar_n = 0,
                  save_fp = ''%s.csv'',
                  trace = [Log INFO (PoolStarts 2), PutOther 0, Log INFO (CrawlerStarts 0),
                           Log INFO (WriterStarts 1), GetOther, Log INFO (CrawlerStopped 0),
                           Log INFO (WriterStopped 1), Log INFO (Retrieved 0 0), Close]\<rparr>)"
    by code_simp
  from unseeded_crawler_retrieves_nothing[OF h] h show ?thesis by simp
qed

end
